theory Spec2Isabelle
  imports Complex_Main "HOL-Library.Multiset"
begin

section \<open>Parameters and constants of omahaequity.py\<close>

text \<open>
  The module-level parameters of the source. Ranks and suits are Python integers, so they
  are modelled as \<open>int\<close>: the wildcard \<open>anything\<close> and the alias \<open>deprecated_ace\<close> live in the
  same numeric domain as the real ranks. Sizes and counts are never negative and are
  modelled as \<open>nat\<close>.
\<close>

definition num_ranks :: int where "num_ranks = 13"
definition num_suits :: int where "num_suits = 4"
definition board_size :: nat where "board_size = 5"
definition holding_size :: nat where "holding_size = 4"
definition num_players :: nat where "num_players = 6"

text \<open>
  \<^verbatim>\<open>num_couplets_per_holding = int(holding_size * (holding_size - 1) / 2)\<close>: the product of two
  consecutive numbers is even, so the truncation of the quotient is the integer quotient.
\<close>

definition num_couplets_per_holding :: nat where
  "num_couplets_per_holding = (holding_size * (holding_size - 1)) div 2"

definition num_opponents :: nat where "num_opponents = num_players - 1"

definition num_opponents_couplets :: nat where
  "num_opponents_couplets = num_opponents * num_couplets_per_holding"

definition ace :: int where "ace = 12"
definition five :: int where "five = 3"
definition three :: int where "three = 1"
definition deprecated_ace :: int where "deprecated_ace = - 1"
definition anything :: int where "anything = 999"

text \<open>The exceptions the modelled functions can raise.\<close>

datatype error = KeyError | IndexError | TypeError | ZeroDivisionError

section \<open>Cards and couplets\<close>

datatype Card = Card (rank: int) (suit: int)

datatype Couplet = Couplet (card_1: Card) (card_2: Card)

definition is_copy :: "Card \<Rightarrow> Card \<Rightarrow> bool" where
  "is_copy self target_card \<longleftrightarrow> rank self = rank target_card \<and> suit self = suit target_card"

definition card_fulfills :: "Card \<Rightarrow> Card \<Rightarrow> bool" where
  "card_fulfills self target_card \<longleftrightarrow>
     (rank target_card = anything \<or> rank self = rank target_card) \<and>
     (suit target_card = anything \<or> suit self = suit target_card)"

text \<open>\<^verbatim>\<open>Card.is_compatible\<close>: the loop returns False at the first copy found on the board.\<close>

fun card_is_compatible :: "Card \<Rightarrow> Card list \<Rightarrow> bool" where
  "card_is_compatible self [] = True"
| "card_is_compatible self (target_card # board) =
     (if is_copy self target_card then False else card_is_compatible self board)"

definition fulfills :: "Couplet \<Rightarrow> Couplet \<Rightarrow> bool" where
  "fulfills self target_couplet \<longleftrightarrow>
     (card_fulfills (card_1 self) (card_1 target_couplet) \<and>
      card_fulfills (card_2 self) (card_2 target_couplet)) \<or>
     (card_fulfills (card_1 self) (card_2 target_couplet) \<and>
      card_fulfills (card_2 self) (card_1 target_couplet))"

definition is_compatible :: "Couplet \<Rightarrow> Card list \<Rightarrow> bool" where
  "is_compatible self board \<longleftrightarrow>
     card_is_compatible (card_1 self) board \<and> card_is_compatible (card_2 self) board"

section \<open>Deck and list utilities\<close>

text \<open>\<^verbatim>\<open>reversed(range(n))\<close>: the ranks and the suits, highest first.\<close>

definition rank_range :: "int list" where
  "rank_range = rev [0..num_ranks - 1]"

definition suit_range :: "int list" where
  "suit_range = rev [0..num_suits - 1]"

definition assemble_deck :: "Card list" where
  "assemble_deck = concat (map (\<lambda>r. map (\<lambda>s. Card r s) suit_range) rank_range)"

text \<open>
  A list comprehension whose element expression can raise: the first exception ends the
  comprehension.
\<close>

fun collect :: "('a \<Rightarrow> error + 'b) \<Rightarrow> 'a list \<Rightarrow> error + 'b list" where
  "collect f [] = Inr []"
| "collect f (x # xs) =
     (case f x of
        Inl e \<Rightarrow> Inl e
      | Inr y \<Rightarrow> (case collect f xs of Inl e \<Rightarrow> Inl e | Inr ys \<Rightarrow> Inr (y # ys)))"

text \<open>
  \<^verbatim>\<open>list(combinations(zet, n))\<close>: the sublists of length \<open>n\<close>, in the lexicographic order of
  their positions.
\<close>

fun subsets_of_size :: "nat \<Rightarrow> 'a list \<Rightarrow> 'a list list" where
  "subsets_of_size 0 zet = [[]]"
| "subsets_of_size (Suc n) [] = []"
| "subsets_of_size (Suc n) (x # zet) =
     map ((#) x) (subsets_of_size n zet) @ subsets_of_size (Suc n) zet"

primrec flatten :: "'a list list \<Rightarrow> 'a list" where
  "flatten [] = []"
| "flatten (sublist # lizt) = sublist @ flatten lizt"

text \<open>\<^verbatim>\<open>cards[0]\<close> and \<^verbatim>\<open>cards[1]\<close> raise IndexError on a shorter list.\<close>

fun couplify :: "Card list \<Rightarrow> error + Couplet" where
  "couplify (c0 # c1 # cards) = Inr (Couplet c0 c1)"
| "couplify cards = Inl IndexError"

text \<open>Python's \<^verbatim>\<open>%\<close> with a positive modulus is \<open>mod\<close> on \<open>int\<close>: \<open>-1 % 13 = 12\<close>.\<close>

fun couplify_ranks :: "int list \<Rightarrow> int \<Rightarrow> error + Couplet" where
  "couplify_ranks (r0 # r1 # ranks) s =
     Inr (Couplet (Card (r0 mod num_ranks) s) (Card (r1 mod num_ranks) s))"
| "couplify_ranks ranks s = Inl IndexError"

definition pair_couplet :: "int \<Rightarrow> Couplet" where
  "pair_couplet r = Couplet (Card r anything) (Card r anything)"

definition remove_incompatible_couplets :: "Couplet list \<Rightarrow> Card list \<Rightarrow> Couplet list" where
  "remove_incompatible_couplets level forbidden_cards =
     filter (\<lambda>couplet. is_compatible couplet forbidden_cards) level"

definition remove_empty_levels :: "'a list list \<Rightarrow> 'a list list" where
  "remove_empty_levels levels = filter (\<lambda>level. length level > 0) levels"

text \<open>
  \<^verbatim>\<open>index_of_level_containing\<close>: the index of the first level holding a couplet that the
  target fulfills, \<open>None\<close> when there is none.
\<close>

fun index_scan :: "Couplet \<Rightarrow> Couplet list list \<Rightarrow> nat \<Rightarrow> nat option" where
  "index_scan target_couplet [] level_index = None"
| "index_scan target_couplet (level # levels) level_index =
     (if list_ex (fulfills target_couplet) level then Some level_index
      else index_scan target_couplet levels (Suc level_index))"

definition index_of_level_containing :: "Couplet \<Rightarrow> Couplet list list \<Rightarrow> nat option" where
  "index_of_level_containing target_couplet levels = index_scan target_couplet levels 0"

section \<open>Board analysis\<close>

definition partition_by_suit :: "Card list \<Rightarrow> Card list list" where
  "partition_by_suit board = map (\<lambda>s. filter (\<lambda>card. suit card = s) board) suit_range"

definition extract_ranks :: "Card list \<Rightarrow> bool \<Rightarrow> int list" where
  "extract_ranks board include_deprecation =
     (let board_ranks = map rank board
      in if include_deprecation
         then board_ranks @ map (\<lambda>r. deprecated_ace) (filter (\<lambda>r. r = ace) board_ranks)
         else board_ranks)"

text \<open>
  \<^verbatim>\<open>rank_tallies\<close> is a dict whose keys are the ranks of \<open>rank_range\<close> from its creation on,
  and every later read is at a key of \<open>rank_range\<close>: it is modelled by the function giving
  the tally of each rank. The update \<^verbatim>\<open>rank_tallies[board_rank] += 1\<close> raises KeyError for
  a board rank that is no key.
\<close>

fun tally_loop :: "int list \<Rightarrow> (int \<Rightarrow> nat) \<Rightarrow> error + (int \<Rightarrow> nat)" where
  "tally_loop [] rank_tallies = Inr rank_tallies"
| "tally_loop (board_rank # board_ranks) rank_tallies =
     (if board_rank \<in> set rank_range
      then tally_loop board_ranks (rank_tallies(board_rank := rank_tallies board_rank + 1))
      else Inl KeyError)"

definition tally_ranks :: "Card list \<Rightarrow> error + (int \<Rightarrow> nat)" where
  "tally_ranks board = tally_loop (extract_ranks board False) (\<lambda>r. 0)"

fun max_tally_loop :: "(int \<Rightarrow> nat) \<Rightarrow> int list \<Rightarrow> nat \<Rightarrow> nat" where
  "max_tally_loop rank_tallies [] most_of_one_rank = most_of_one_rank"
| "max_tally_loop rank_tallies (r # rs) most_of_one_rank =
     max_tally_loop rank_tallies rs
       (if rank_tallies r > most_of_one_rank then rank_tallies r else most_of_one_rank)"

definition max_tally :: "(int \<Rightarrow> nat) \<Rightarrow> nat" where
  "max_tally rank_tallies = max_tally_loop rank_tallies rank_range 0"

fun repeated_rank_loop :: "(int \<Rightarrow> nat) \<Rightarrow> int list \<Rightarrow> int option" where
  "repeated_rank_loop rank_tallies [] = None"
| "repeated_rank_loop rank_tallies (r # rs) =
     (if rank_tallies r > 1 then Some r else repeated_rank_loop rank_tallies rs)"

definition highest_repeated_rank :: "(int \<Rightarrow> nat) \<Rightarrow> int option" where
  "highest_repeated_rank rank_tallies = repeated_rank_loop rank_tallies rank_range"

section \<open>Level builders\<close>

type_synonym level = "Couplet list"

text \<open>
  The order-preserving removal of repeated ranks in \<^verbatim>\<open>straight_levels_with_suit\<close>: a rank is
  appended unless it is already there.
\<close>

fun unique_loop :: "int list \<Rightarrow> int list \<Rightarrow> int list" where
  "unique_loop [] unique_board_ranks = unique_board_ranks"
| "unique_loop (r # rs) unique_board_ranks =
     unique_loop rs (if r \<notin> set unique_board_ranks then unique_board_ranks @ [r]
                     else unique_board_ranks)"

definition straight_level_with_suit :: "int \<Rightarrow> int list \<Rightarrow> int \<Rightarrow> error + level" where
  "straight_level_with_suit high_rank board_ranks suit_to_record =
     (let straight_ranks = rev [high_rank - 4..high_rank]
      in collect (\<lambda>subset. couplify_ranks (filter (\<lambda>r. r \<notin> set subset) straight_ranks)
                              suit_to_record)
           (filter (\<lambda>subset. subset \<in> set (subsets_of_size 3 straight_ranks))
              (subsets_of_size 3 (rev (sort board_ranks)))))"

definition straight_levels_with_suit :: "Card list \<Rightarrow> int \<Rightarrow> error + level list" where
  "straight_levels_with_suit board suit_to_record =
     (let unique_board_ranks = unique_loop (extract_ranks board True) []
      in case collect (\<lambda>r. straight_level_with_suit r unique_board_ranks suit_to_record)
                (rev [five..num_ranks - 1]) of
           Inl e \<Rightarrow> Inl e
         | Inr levels \<Rightarrow> Inr (remove_empty_levels levels))"

text \<open>
  The loop of \<^verbatim>\<open>straight_flush_levels\<close> over the suits' sub-boards. \<^verbatim>\<open>subboard[0]\<close> is read
  only when the sub-board has three cards or more.
\<close>

fun straight_flush_loop :: "Card list list \<Rightarrow> error + level list" where
  "straight_flush_loop [] = Inr []"
| "straight_flush_loop (subboard # subboards) =
     (if length subboard \<ge> 3
      then (case straight_levels_with_suit subboard (suit (hd subboard)) of
              Inl e \<Rightarrow> Inl e
            | Inr found \<Rightarrow>
                (case straight_flush_loop subboards of
                   Inl e \<Rightarrow> Inl e
                 | Inr levels \<Rightarrow> Inr (found @ levels)))
      else straight_flush_loop subboards)"

definition straight_flush_levels :: "Card list \<Rightarrow> error + level list" where
  "straight_flush_levels board =
     (case straight_flush_loop (partition_by_suit board) of
        Inl e \<Rightarrow> Inl e
      | Inr levels \<Rightarrow>
          Inr (remove_empty_levels
                 (map (\<lambda>inner_level. remove_incompatible_couplets inner_level board) levels)))"

definition four_of_a_kind_levels :: "Card list \<Rightarrow> error + level list" where
  "four_of_a_kind_levels board =
     (case tally_ranks board of
        Inl e \<Rightarrow> Inl e
      | Inr rank_tallies \<Rightarrow>
          Inr (concat (map (\<lambda>r.
                 if rank_tallies r = 2 then [[pair_couplet r]]
                 else if rank_tallies r \<ge> 3
                 then [[Couplet (Card r anything) (Card anything anything)]]
                 else []) rank_range)))"

text \<open>
  The scan of \<^verbatim>\<open>full_house_levels\<close> on a board with three of a rank: \<open>continue_scan\<close> is the
  flag of the source, cleared by the first rank with a tally of three or more.
\<close>

fun full_house_scan :: "(int \<Rightarrow> nat) \<Rightarrow> int list \<Rightarrow> bool \<Rightarrow> level list" where
  "full_house_scan rank_tallies [] continue_scan = []"
| "full_house_scan rank_tallies (r # rs) continue_scan =
     (if continue_scan
      then (if rank_tallies r = 1
            then [pair_couplet r] # full_house_scan rank_tallies rs True
            else if rank_tallies r \<ge> 3
            then map (\<lambda>inner_rank. [pair_couplet inner_rank])
                   (filter (\<lambda>inner_rank. rank_tallies inner_rank = 0 \<or>
                                           (rank_tallies inner_rank = 1 \<and> inner_rank < r))
                      rank_range)
                 @ full_house_scan rank_tallies rs False
            else full_house_scan rank_tallies rs True)
      else full_house_scan rank_tallies rs False)"

definition full_house_levels :: "Card list \<Rightarrow> error + level list" where
  "full_house_levels board =
     (case tally_ranks board of
        Inl e \<Rightarrow> Inl e
      | Inr rank_tallies \<Rightarrow>
          (let most_of_one_rank = max_tally rank_tallies
           in if most_of_one_rank = 2
              then Inr (concat (map (\<lambda>r.
                     if rank_tallies r = 1 then [[pair_couplet r]]
                     else if rank_tallies r = 2
                     then map (\<lambda>inner_rank. [Couplet (Card r anything) (Card inner_rank anything)])
                            (filter (\<lambda>inner_rank. rank_tallies inner_rank = 1 \<or>
                                       (rank_tallies inner_rank = 2 \<and> inner_rank < r))
                               rank_range)
                     else []) rank_range))
              else if most_of_one_rank \<ge> 3
              then Inr (full_house_scan rank_tallies rank_range True)
              else Inr []))"

text \<open>
  The loop of \<^verbatim>\<open>flush_levels\<close> over the suits' sub-boards, appending one level for each
  novel rank.
\<close>

fun flush_loop :: "Card list list \<Rightarrow> level list \<Rightarrow> level list" where
  "flush_loop [] levels = levels"
| "flush_loop (subboard # subboards) levels =
     flush_loop subboards
       (if length subboard \<ge> 3
        then levels @
             map (\<lambda>novel_rank. [Couplet (Card novel_rank (suit (hd subboard)))
                                         (Card anything (suit (hd subboard)))])
               (filter (\<lambda>r. r \<notin> set (extract_ranks subboard False))
                  (rev [three..num_ranks - 1]))
        else levels)"

definition flush_levels :: "Card list \<Rightarrow> level list" where
  "flush_levels board = flush_loop (partition_by_suit board) []"

definition straight_levels :: "Card list \<Rightarrow> error + level list" where
  "straight_levels board = straight_levels_with_suit board anything"

text \<open>
  The nested kicker loops that the three-of-a-kind, two-pair, one-pair and high-card
  builders share: for each rank of the range, one level for each lower rank of the range.
\<close>

definition kicker_levels :: "int list \<Rightarrow> level list" where
  "kicker_levels higher_range =
     concat (map (\<lambda>higher. map (\<lambda>lower. [Couplet (Card higher anything) (Card lower anything)])
                              (filter (\<lambda>r. r < higher) higher_range)) higher_range)"

text \<open>
  The scan of \<^verbatim>\<open>three_of_a_kind_levels\<close> on a board with three of a rank, with the flag
  \<open>continue_scan\<close> and the list \<open>tally_2_overranks\<close> of the source as its state.
\<close>

fun three_of_a_kind_scan :: "(int \<Rightarrow> nat) \<Rightarrow> int list \<Rightarrow> bool \<Rightarrow> int list \<Rightarrow> level list" where
  "three_of_a_kind_scan rank_tallies [] continue_scan tally_2_overranks = []"
| "three_of_a_kind_scan rank_tallies (r # rs) continue_scan tally_2_overranks =
     (if continue_scan
      then (if rank_tallies r = 2
            then map (\<lambda>inner_rank. [Couplet (Card r anything) (Card inner_rank anything)])
                   (filter (\<lambda>inner_rank. rank_tallies inner_rank = 0) rank_range)
                 @ three_of_a_kind_scan rank_tallies rs True (tally_2_overranks @ [r])
            else if rank_tallies r = 3
            then kicker_levels
                   (filter (\<lambda>inner_rank. inner_rank \<noteq> r \<and> inner_rank \<notin> set tally_2_overranks)
                      rank_range)
                 @ three_of_a_kind_scan rank_tallies rs False tally_2_overranks
            else three_of_a_kind_scan rank_tallies rs True tally_2_overranks)
      else three_of_a_kind_scan rank_tallies rs False tally_2_overranks)"

definition three_of_a_kind_levels :: "Card list \<Rightarrow> error + level list" where
  "three_of_a_kind_levels board =
     (case tally_ranks board of
        Inl e \<Rightarrow> Inl e
      | Inr rank_tallies \<Rightarrow>
          (let most_of_one_rank = max_tally rank_tallies
           in if most_of_one_rank = 1
              then Inr (concat (map (\<lambda>r. if rank_tallies r = 1 then [[pair_couplet r]] else [])
                          rank_range))
              else if most_of_one_rank = 2
              then Inr (concat (map (\<lambda>r.
                     if rank_tallies r = 2
                     then map (\<lambda>inner_rank. [Couplet (Card r anything) (Card inner_rank anything)])
                            (filter (\<lambda>inner_rank. rank_tallies inner_rank = 0) rank_range)
                     else []) rank_range))
              else if most_of_one_rank \<ge> 3
              then Inr (three_of_a_kind_scan rank_tallies rank_range True [])
              else Inr []))"

text \<open>
  On a paired board \<^verbatim>\<open>highest_repeated_rank\<close> is compared with a rank; comparing \<open>None\<close> with
  an integer raises TypeError.
\<close>

definition two_pair_levels :: "Card list \<Rightarrow> error + level list" where
  "two_pair_levels board =
     (case tally_ranks board of
        Inl e \<Rightarrow> Inl e
      | Inr rank_tallies \<Rightarrow>
          (let most_of_one_rank = max_tally rank_tallies
           in if most_of_one_rank = 1
              then Inr (kicker_levels (filter (\<lambda>r. rank_tallies r = 1) rank_range))
              else if most_of_one_rank = 2
              then (case highest_repeated_rank rank_tallies of
                      None \<Rightarrow> Inl TypeError
                    | Some board_pair_rank \<Rightarrow>
                        Inr (concat (map (\<lambda>r.
                          (if rank_tallies r = 0 then [[pair_couplet r]] else []) @
                          (if rank_tallies r = 1
                           then map (\<lambda>inner_rank.
                                       [Couplet (Card r anything) (Card inner_rank anything)])
                                  (filter (\<lambda>inner_rank. inner_rank > board_pair_rank \<and>
                                             rank_tallies inner_rank = 1 \<and> inner_rank \<noteq> r)
                                     rank_range) @
                                map (\<lambda>inner_rank.
                                       [Couplet (Card r anything) (Card inner_rank anything)])
                                  (filter (\<lambda>inner_rank. inner_rank < board_pair_rank \<or>
                                             rank_tallies inner_rank = 0)
                                     rank_range)
                           else [])) rank_range)))
              else Inr []))"

definition one_pair_levels :: "Card list \<Rightarrow> error + level list" where
  "one_pair_levels board =
     (case tally_ranks board of
        Inl e \<Rightarrow> Inl e
      | Inr rank_tallies \<Rightarrow>
          (let most_of_one_rank = max_tally rank_tallies
           in if most_of_one_rank = 1
              then Inr (concat (map (\<lambda>r.
                     (if rank_tallies r = 0 then [[pair_couplet r]] else []) @
                     (if rank_tallies r = 1
                      then map (\<lambda>inner_rank.
                                  [Couplet (Card r anything) (Card inner_rank anything)])
                             (filter (\<lambda>inner_rank. rank_tallies inner_rank = 0) rank_range)
                      else [])) rank_range))
              else if most_of_one_rank = 2
              then Inr (kicker_levels (filter (\<lambda>r. rank_tallies r = 0) rank_range))
              else Inr []))"

definition high_card_levels :: "Card list \<Rightarrow> error + level list" where
  "high_card_levels board =
     (case tally_ranks board of
        Inl e \<Rightarrow> Inl e
      | Inr rank_tallies \<Rightarrow>
          (if max_tally rank_tallies = 1
           then Inr (kicker_levels (filter (\<lambda>r. rank_tallies r = 0) rank_range))
           else Inr []))"

text \<open>
  The concatenation of \<^verbatim>\<open>all_levels\<close> evaluates the builders from left to right; the first
  exception ends it.
\<close>

fun append_levels :: "error + level list \<Rightarrow> error + level list \<Rightarrow> error + level list" where
  "append_levels (Inl e) more = Inl e"
| "append_levels (Inr levels) (Inl e) = Inl e"
| "append_levels (Inr levels) (Inr more) = Inr (levels @ more)"

definition all_levels :: "Card list \<Rightarrow> error + level list" where
  "all_levels board =
     append_levels (straight_flush_levels board)
    (append_levels (four_of_a_kind_levels board)
    (append_levels (full_house_levels board)
    (append_levels (Inr (flush_levels board))
    (append_levels (straight_levels board)
    (append_levels (three_of_a_kind_levels board)
    (append_levels (two_pair_levels board)
    (append_levels (one_pair_levels board)
    (append_levels (high_card_levels board)
       (Inr [[Couplet (Card anything anything) (Card anything anything)]])))))))))"

section \<open>The ladder resolver\<close>

text \<open>
  The loops of \<^verbatim>\<open>specify\<close>. The state is the list \<open>specific_levels\<close> together with the flag
  \<open>continue_scan\<close>; \<open>level_index\<close> stays below the length of \<open>specific_levels\<close>, which has one
  entry for each generic level.
\<close>

fun scan_generic_level ::
  "Couplet \<Rightarrow> level \<Rightarrow> nat \<Rightarrow> level list \<times> bool \<Rightarrow> level list \<times> bool" where
  "scan_generic_level specific_couplet [] level_index state = state"
| "scan_generic_level specific_couplet (generic_couplet # generic_level) level_index
     (specific_levels, continue_scan) =
     scan_generic_level specific_couplet generic_level level_index
       (if continue_scan \<and> fulfills specific_couplet generic_couplet
        then (specific_levels[level_index := specific_levels ! level_index @ [specific_couplet]],
              False)
        else (specific_levels, continue_scan))"

fun scan_generic_levels ::
  "Couplet \<Rightarrow> level list \<Rightarrow> nat \<Rightarrow> level list \<times> bool \<Rightarrow> level list \<times> bool" where
  "scan_generic_levels specific_couplet [] level_index state = state"
| "scan_generic_levels specific_couplet (generic_level # generic_levels) level_index state =
     scan_generic_levels specific_couplet generic_levels (Suc level_index)
       (scan_generic_level specific_couplet generic_level level_index state)"

fun place_couplets :: "Couplet list \<Rightarrow> level list \<Rightarrow> level list \<Rightarrow> level list" where
  "place_couplets [] generic_levels specific_levels = specific_levels"
| "place_couplets (specific_couplet # specific_couplets) generic_levels specific_levels =
     place_couplets specific_couplets generic_levels
       (fst (scan_generic_levels specific_couplet generic_levels 0 (specific_levels, True)))"

definition remaining_deck :: "Card list \<Rightarrow> Card list" where
  "remaining_deck board = filter (\<lambda>card. card_is_compatible card board) assemble_deck"

definition specify :: "level list \<Rightarrow> Card list \<Rightarrow> error + level list" where
  "specify generic_levels board =
     (case collect couplify (subsets_of_size 2 (remaining_deck board)) of
        Inl e \<Rightarrow> Inl e
      | Inr specific_couplets \<Rightarrow>
          Inr (remove_empty_levels
                 (place_couplets specific_couplets generic_levels
                    (replicate (length generic_levels) []))))"

section \<open>The equity engine\<close>

text \<open>
  The first loop of \<^verbatim>\<open>utility\<close>. When \<^verbatim>\<open>index_of_level_containing\<close> returns \<open>None\<close>, the
  comparison \<^verbatim>\<open>level_index < best_level_index\<close> raises TypeError.
\<close>

fun best_level_loop :: "Couplet list \<Rightarrow> level list \<Rightarrow> nat \<Rightarrow> error + nat" where
  "best_level_loop [] levels best_level_index = Inr best_level_index"
| "best_level_loop (couplet # couplets) levels best_level_index =
     (case index_of_level_containing couplet levels of
        None \<Rightarrow> Inl TypeError
      | Some level_index \<Rightarrow>
          best_level_loop couplets levels
            (if level_index < best_level_index then level_index else best_level_index))"

text \<open>
  The true division of two integers raises ZeroDivisionError on a zero divisor. Its
  floating-point quotient is modelled by the exact rational quotient: the model does not
  round. \<open>math.comb\<close> on counts is the binomial coefficient, zero when more is chosen than
  there is.
\<close>

definition true_div :: "nat \<Rightarrow> nat \<Rightarrow> error + rat" where
  "true_div a b = (if b = 0 then Inl ZeroDivisionError else Inr (of_nat a / of_nat b))"

text \<open>
  The loop under \<^verbatim>\<open>try\<close>: a ZeroDivisionError ends the loop and leaves
  \<open>expected_pot_fraction_given_best_hand\<close> as it is at that moment.
\<close>

fun pot_fraction_loop :: "nat list \<Rightarrow> nat \<Rightarrow> nat \<Rightarrow> rat \<Rightarrow> rat" where
  "pot_fraction_loop [] num_equipotent_couplets num_worse_couplets expected = expected"
| "pot_fraction_loop (k # ks) num_equipotent_couplets num_worse_couplets expected =
     (case true_div ((num_equipotent_couplets choose k) *
                     (num_worse_couplets choose (num_opponents_couplets - k)))
                    ((num_equipotent_couplets + num_worse_couplets) choose num_opponents_couplets) of
        Inl e \<Rightarrow> expected
      | Inr prob \<Rightarrow>
          pot_fraction_loop ks num_equipotent_couplets num_worse_couplets
            (expected + prob / of_nat (k + 1)))"

definition utility :: "Card list \<Rightarrow> Card list \<Rightarrow> error + rat" where
  "utility holding board =
     (case all_levels board of
        Inl e \<Rightarrow> Inl e
      | Inr generic_levels \<Rightarrow>
     (case specify generic_levels board of
        Inl e \<Rightarrow> Inl e
      | Inr levels \<Rightarrow>
     (case collect couplify (subsets_of_size 2 holding) of
        Inl e \<Rightarrow> Inl e
      | Inr couplets \<Rightarrow>
     (case best_level_loop couplets levels (length levels) of
        Inl e \<Rightarrow> Inl e
      | Inr best_level_index \<Rightarrow>
          (let num_better_couplets =
                 length (remove_incompatible_couplets
                           (flatten (take best_level_index levels)) holding)
           in if best_level_index \<ge> length levels then Inl IndexError
              else
                (let num_equipotent_couplets =
                       length (remove_incompatible_couplets (levels ! best_level_index) holding);
                     num_worse_couplets =
                       length (remove_incompatible_couplets
                                 (flatten (drop (best_level_index + 1) levels)) holding)
                 in case true_div
                           ((num_equipotent_couplets + num_worse_couplets)
                              choose num_opponents_couplets)
                           ((num_better_couplets + num_equipotent_couplets + num_worse_couplets)
                              choose num_opponents_couplets) of
                      Inl e \<Rightarrow> Inl e
                    | Inr prob_best_hand \<Rightarrow>
                        Inr (prob_best_hand *
                             pot_fraction_loop
                               [0..<min (num_equipotent_couplets + 1) (num_opponents_couplets + 1)]
                               num_equipotent_couplets num_worse_couplets 0)))))))"

section \<open>Notions used in the statements\<close>

text \<open>
  The couplets that \<^verbatim>\<open>[couplify(subset) for subset in subsets_of_size(2, cards)]\<close> lists: each
  card paired with every later card of the list.
\<close>

fun couplets_of :: "Card list \<Rightarrow> Couplet list" where
  "couplets_of [] = []"
| "couplets_of (c # cs) = map (Couplet c) cs @ couplets_of cs"

text \<open>A physical card: a rank and a suit of the deck, no wildcard and no alias.\<close>

definition physical_card :: "Card \<Rightarrow> bool" where
  "physical_card c \<longleftrightarrow> 0 \<le> rank c \<and> rank c < num_ranks \<and> 0 \<le> suit c \<and> suit c < num_suits"

text \<open>
  A board of forty cards, every card from the deuces to the jacks: with a holding of four
  cards it leaves eight cards in the deck.
\<close>

definition forty_card_board :: "Card list" where
  "forty_card_board =
     concat (map (\<lambda>r. map (Card r) [3, 2, 1, 0]) [9, 8, 7, 6, 5, 4, 3, 2, 1, 0])"

text \<open>
  The flush levels in the words of the specification: for every suit, highest first, with
  three or more board cards of that suit, one level for every rank from three upwards that
  no board card of that suit has, highest rank first; the level is the single pattern of
  that rank in that suit with any card of that suit.
\<close>

definition flush_levels_spec :: "Card list \<Rightarrow> level list" where
  "flush_levels_spec board =
     concat (map (\<lambda>s.
       if 3 \<le> length (filter (\<lambda>c. suit c = s) board)
       then map (\<lambda>r. [Couplet (Card r s) (Card anything s)])
              (filter (\<lambda>r. three \<le> r \<and> r \<notin> set (map rank (filter (\<lambda>c. suit c = s) board)))
                 rank_range)
       else []) suit_range)"

text \<open>The pattern of the terminal level of \<^verbatim>\<open>all_levels\<close>.\<close>

definition catch_all :: Couplet where
  "catch_all = Couplet (Card anything anything) (Card anything anything)"

section \<open>Cards, deck and couplets\<close>

lemma is_copy_eq: "is_copy a b \<longleftrightarrow> a = b"
  by (auto simp: is_copy_def Card.expand)

lemma card_is_compatible_iff: "card_is_compatible c board \<longleftrightarrow> c \<notin> set board"
  by (induction board) (auto simp: is_copy_eq)

lemma set_rank_range: "set rank_range = {0..12}"
  by (auto simp: rank_range_def num_ranks_def)

lemma set_suit_range: "set suit_range = {0..3}"
  by (auto simp: suit_range_def num_suits_def)

lemma distinct_rank_range: "distinct rank_range"
  by (simp add: rank_range_def)

lemma distinct_suit_range: "distinct suit_range"
  by (simp add: suit_range_def)

lemma in_assemble_deck:
  "c \<in> set assemble_deck \<longleftrightarrow> 0 \<le> rank c \<and> rank c \<le> 12 \<and> 0 \<le> suit c \<and> suit c \<le> 3"
  by (cases c) (force simp: assemble_deck_def set_rank_range set_suit_range)

lemma distinct_assemble_deck: "distinct assemble_deck"
  unfolding assemble_deck_def
  by (rule distinct_concat)
     (auto simp: distinct_map distinct_rank_range distinct_suit_range inj_on_def set_suit_range
        dest!: arg_cong[where f=set])

lemma length_rank_range: "length rank_range = 13"
  by (simp add: rank_range_def num_ranks_def)

lemma length_suit_range: "length suit_range = 4"
  by (simp add: suit_range_def num_suits_def)

lemma length_assemble_deck: "length assemble_deck = 52"
  by (simp add: assemble_deck_def length_concat comp_def sum_list_triv length_rank_range length_suit_range)

lemma collect_append:
  "collect f (xs @ ys) =
    (case collect f xs of Inl e \<Rightarrow> Inl e
     | Inr as \<Rightarrow> (case collect f ys of Inl e \<Rightarrow> Inl e | Inr bs \<Rightarrow> Inr (as @ bs)))"
  by (induction xs) (auto split: sum.splits)

lemma collect_total:
  "(\<And>x. x \<in> set xs \<Longrightarrow> f x = Inr (g x)) \<Longrightarrow> collect f xs = Inr (map g xs)"
  by (induction xs) auto

lemma subsets_of_size_1: "subsets_of_size (Suc 0) xs = map (\<lambda>x. [x]) xs"
  by (induction xs) auto

lemma collect_couplify: "collect couplify (subsets_of_size 2 cs) = Inr (couplets_of cs)"
proof (induction cs)
  case Nil
  show ?case by (simp add: numeral_2_eq_2)
next
  case (Cons c cs)
  have "collect couplify (map ((#) c) (map (\<lambda>x. [x]) cs)) = Inr (map (\<lambda>s. Couplet c (hd (tl s))) (map ((#) c) (map (\<lambda>x. [x]) cs)))"
    by (rule collect_total) auto
  then have "collect couplify (map ((#) c) (map (\<lambda>x. [x]) cs)) = Inr (map (Couplet c) cs)"
    by (simp add: comp_def)
  with Cons show ?case
    by (simp add: numeral_2_eq_2 subsets_of_size_1 collect_append)
qed

lemma set_couplets_of:
  "distinct cs \<Longrightarrow> Couplet a b \<in> set (couplets_of cs) \<Longrightarrow> a \<in> set cs \<and> b \<in> set cs \<and> a \<noteq> b"
  by (induction cs) auto

lemma couplets_of_cover:
  "a \<in> set cs \<Longrightarrow> b \<in> set cs \<Longrightarrow> a \<noteq> b \<Longrightarrow>
     Couplet a b \<in> set (couplets_of cs) \<or> Couplet b a \<in> set (couplets_of cs)"
  by (induction cs) auto

lemma couplets_of_not_both:
  "distinct cs \<Longrightarrow> Couplet a b \<in> set (couplets_of cs) \<Longrightarrow> Couplet b a \<notin> set (couplets_of cs)"
  by (induction cs) (auto dest: set_couplets_of)

lemma distinct_couplets_of: "distinct cs \<Longrightarrow> distinct (couplets_of cs)"
  by (induction cs) (auto simp: distinct_map inj_on_def dest: set_couplets_of)

lemma length_couplets_of: "length (couplets_of cs) = length cs choose 2"
  by (induction cs) (auto simp: numeral_2_eq_2)

lemma filter_couplets_of:
  "filter (\<lambda>c. P (card_1 c) \<and> P (card_2 c)) (couplets_of cs) = couplets_of (filter P cs)"
  by (induction cs) (auto simp: filter_map comp_def)

section \<open>Matching predicates\<close>

text \<open>
  C5. Wildcard symmetry: \<open>Couplet(c1,c2).fulfills(Couplet(p1,p2))\<close> keeps its value when the two
  cards of the couplet are swapped, when the two cards of the pattern are swapped, and
  when both are swapped.
\<close>

theorem fulfills_swap_invariant:
  "fulfills (Couplet c2 c1) (Couplet p1 p2) = fulfills (Couplet c1 c2) (Couplet p1 p2) \<and>
   fulfills (Couplet c1 c2) (Couplet p2 p1) = fulfills (Couplet c1 c2) (Couplet p1 p2) \<and>
   fulfills (Couplet c2 c1) (Couplet p2 p1) = fulfills (Couplet c1 c2) (Couplet p1 p2)"
  by (auto simp: fulfills_def)

section \<open>The loops of the resolver\<close>

lemma index_scan_bound:
  "index_scan t levels i = Some j \<Longrightarrow> i \<le> j \<and> j < i + length levels"
  by (induction levels arbitrary: i) (fastforce split: if_splits)+

lemma index_scan_Some_iff:
  "index_scan t levels i = Some j \<longleftrightarrow>
     i \<le> j \<and> j - i < length levels \<and> list_ex (fulfills t) (levels ! (j - i)) \<and>
     (\<forall>k < j - i. \<not> list_ex (fulfills t) (levels ! k))"
proof (induction levels arbitrary: i)
  case Nil
  show ?case by simp
next
  case (Cons l ls)
  show ?case
  proof (cases "list_ex (fulfills t) l")
    case True
    then show ?thesis
      by (auto simp: nth_Cons split: nat.splits)
  next
    case False
    have "(Suc i \<le> j \<and> j - Suc i < length ls \<and> list_ex (fulfills t) (ls ! (j - Suc i)) \<and>
            (\<forall>k<j - Suc i. \<not> list_ex (fulfills t) (ls ! k))) =
          (i \<le> j \<and> j - i < length (l # ls) \<and> list_ex (fulfills t) ((l # ls) ! (j - i)) \<and>
            (\<forall>k<j - i. \<not> list_ex (fulfills t) ((l # ls) ! k)))" (is "?L = ?R")
    proof
      assume L: ?L
      then have ji: "j - i = Suc (j - Suc i)" by arith
      show ?R using L False unfolding ji
        by (auto simp: nth_Cons split: nat.splits)
    next
      assume R: ?R
      have ne: "j \<noteq> i" using R False by auto
      then have ji: "j - i = Suc (j - Suc i)" using R by arith
      have "Suc i \<le> j" using ne R by arith
      then show ?L using R False unfolding ji
        by (auto simp: nth_Cons split: nat.splits)
    qed
    with False Cons show ?thesis by simp
  qed
qed

lemma index_scan_None_iff:
  "index_scan t levels i = None \<longleftrightarrow> (\<forall>l \<in> set levels. \<not> list_ex (fulfills t) l)"
  by (induction levels arbitrary: i) auto

lemma scan_generic_level_False:
  "scan_generic_level sc gs i (sl, False) = (sl, False)"
  by (induction gs) auto

lemma scan_generic_level_True:
  "scan_generic_level sc gs i (sl, True) =
     (if list_ex (fulfills sc) gs then (sl[i := sl ! i @ [sc]], False) else (sl, True))"
  by (induction gs) (auto simp: scan_generic_level_False)

lemma scan_generic_levels_False:
  "scan_generic_levels sc gls i (sl, False) = (sl, False)"
  by (induction gls arbitrary: i) (auto simp: scan_generic_level_False)

lemma scan_generic_levels_True:
  "scan_generic_levels sc gls i (sl, True) =
     (case index_scan sc gls i of
        None \<Rightarrow> (sl, True)
      | Some j \<Rightarrow> (sl[j := sl ! j @ [sc]], False))"
  by (induction gls arbitrary: i)
     (auto simp: scan_generic_level_True scan_generic_levels_False)

lemma place_step:
  "fst (scan_generic_levels sc gl 0 (sl, True)) =
     (case index_of_level_containing sc gl of None \<Rightarrow> sl | Some j \<Rightarrow> sl[j := sl ! j @ [sc]])"
  by (simp add: scan_generic_levels_True index_of_level_containing_def split: option.splits)

lemma length_place_couplets:
  "length (place_couplets scs gl sl) = length sl"
  by (induction scs arbitrary: sl) (auto simp: place_step split: option.splits)

lemma nth_place_couplets:
  "j < length sl \<Longrightarrow>
   place_couplets scs gl sl ! j =
     sl ! j @ filter (\<lambda>sc. index_of_level_containing sc gl = Some j) scs"
proof (induction scs arbitrary: sl)
  case Nil
  show ?case by simp
next
  case (Cons sc scs)
  show ?case
  proof (cases "index_of_level_containing sc gl")
    case None
    with Cons show ?thesis by (simp add: place_step)
  next
    case (Some k)
    have "place_couplets (sc # scs) gl sl ! j =
          sl[k := sl ! k @ [sc]] ! j @ filter (\<lambda>sc. index_of_level_containing sc gl = Some j) scs"
      using Cons.IH[of "sl[k := sl ! k @ [sc]]"] Cons.prems Some
      by (simp add: place_step)
    then show ?thesis using Some Cons.prems
      by (cases "k = j") auto
  qed
qed

lemma place_couplets_eq:
  "place_couplets scs gl (replicate (length gl) []) =
     map (\<lambda>j. filter (\<lambda>sc. index_of_level_containing sc gl = Some j) scs) [0..<length gl]"
  by (rule nth_equalityI) (auto simp: length_place_couplets nth_place_couplets)

lemma concat_remove_empty_levels: "concat (remove_empty_levels ls) = concat ls"
  by (induction ls) (auto simp: remove_empty_levels_def)

lemma flatten_concat: "flatten ls = concat ls"
  by (induction ls) auto

lemma mset_concat_index_filter:
  "\<forall>x \<in> set xs. \<exists>j<n. f x = Some j \<Longrightarrow>
     mset (concat (map (\<lambda>j. filter (\<lambda>x. f x = Some j) xs) [0..<n])) = mset xs"
proof (induction xs)
  case Nil
  show ?case by (induction n) auto
next
  case (Cons x xs)
  then obtain k where k: "k < n" "f x = Some k" by auto
  have split: "[0..<n] = [0..<k] @ k # [Suc k..<n]"
    using k(1) by (metis le_add1 le_add_same_cancel1 less_imp_add_positive upt_add_eq_append upt_conv_Cons)
  have a: "map (\<lambda>j. filter (\<lambda>x. f x = Some j) (x # xs)) [0..<k] = map (\<lambda>j. filter (\<lambda>x. f x = Some j) xs) [0..<k]"
    using k(2) by auto
  have b: "map (\<lambda>j. filter (\<lambda>x. f x = Some j) (x # xs)) [Suc k..<n] = map (\<lambda>j. filter (\<lambda>x. f x = Some j) xs) [Suc k..<n]"
    using k(2) by auto
  have "mset (concat (map (\<lambda>j. filter (\<lambda>x. f x = Some j) (x # xs)) [0..<n])) =
        add_mset x (mset (concat (map (\<lambda>j. filter (\<lambda>x. f x = Some j) xs) [0..<n])))"
    unfolding split map_append list.map a b by (simp add: k(2))
  with Cons show ?case by simp
qed

lemma catch_all_fulfilled:
  "fulfills sc (Couplet (Card anything anything) (Card anything anything))"
  by (simp add: fulfills_def card_fulfills_def)

lemma index_always_found:
  "index_of_level_containing sc (gl @ [[Couplet (Card anything anything) (Card anything anything)]])
     \<noteq> None"
  by (simp add: index_of_level_containing_def index_scan_None_iff catch_all_fulfilled)

lemma index_of_level_bound:
  "index_of_level_containing sc gl = Some j \<Longrightarrow> j < length gl"
  using index_scan_bound[of sc gl 0 j] by (simp add: index_of_level_containing_def)

section \<open>The level builders return\<close>

lemma physical_card_deck: "physical_card c \<longleftrightarrow> c \<in> set assemble_deck"
  by (auto simp: physical_card_def in_assemble_deck num_ranks_def num_suits_def)

lemma collect_ok:
  "(\<And>x. x \<in> set xs \<Longrightarrow> \<exists>y. f x = Inr y) \<Longrightarrow> \<exists>ys. collect f xs = Inr ys"
proof (induction xs)
  case Nil
  show ?case by simp
next
  case (Cons x xs)
  then obtain y ys where "f x = Inr y" "collect f xs = Inr ys"
    by (metis list.set_intros(1) list.set_intros(2))
  then show ?case by simp
qed

lemma subsets_of_size_props:
  "s \<in> set (subsets_of_size n xs) \<Longrightarrow> length s = n \<and> n \<le> length xs \<and> set s \<subseteq> set xs"
  by (induction n xs arbitrary: s rule: subsets_of_size.induct) fastforce+

lemma length_filter_complement:
  "s \<in> set (subsets_of_size n xs) \<Longrightarrow> distinct xs \<Longrightarrow>
     length (filter (\<lambda>r. r \<notin> set s) xs) = length xs - n"
proof (induction n xs arbitrary: s rule: subsets_of_size.induct)
  case (1 zet)
  then show ?case by simp
next
  case (2 n)
  then show ?case by simp
next
  case (3 n x zet)
  from "3.prems" have xz: "x \<notin> set zet" and dz: "distinct zet" by auto
  from "3.prems"(1) consider
    (a) s' where "s = x # s'" "s' \<in> set (subsets_of_size n zet)"
    | (b) "s \<in> set (subsets_of_size (Suc n) zet)" by auto
  then show ?case
  proof cases
    case a
    have "filter (\<lambda>r. r \<notin> set s) zet = filter (\<lambda>r. r \<notin> set s') zet"
      using xz a(1) by (auto intro: filter_cong)
    then show ?thesis using a "3.IH"(1)[OF a(2) dz] by simp
  next
    case b
    from subsets_of_size_props[OF b] have "Suc n \<le> length zet" "x \<notin> set s"
      using xz by auto
    then show ?thesis using "3.IH"(2)[OF b dz] by simp
  qed
qed

lemma couplify_ranks_ok: "length rs = 2 \<Longrightarrow> \<exists>c. couplify_ranks rs s = Inr c"
  by (auto simp: numeral_2_eq_2 length_Suc_conv)

lemma straight_level_with_suit_ok: "\<exists>l. straight_level_with_suit h brs s = Inr l"
proof -
  have d: "distinct (rev [h - 4..h])" "length (rev [h - 4..h]) = 5" by auto
  show ?thesis
    unfolding straight_level_with_suit_def Let_def
  proof (rule collect_ok)
    fix x
    assume "x \<in> set (filter (\<lambda>subset. subset \<in> set (subsets_of_size 3 (rev [h - 4..h])))
                       (subsets_of_size 3 (rev (sort brs))))"
    then have "x \<in> set (subsets_of_size 3 (rev [h - 4..h]))" by simp
    from length_filter_complement[OF this d(1)] d(2)
    have "length (filter (\<lambda>r. r \<notin> set x) (rev [h - 4..h])) = 2" by simp
    then show "\<exists>y. couplify_ranks (filter (\<lambda>r. r \<notin> set x) (rev [h - 4..h])) s = Inr y"
      by (rule couplify_ranks_ok)
  qed
qed

lemma straight_levels_with_suit_ok: "\<exists>ls. straight_levels_with_suit board s = Inr ls"
proof -
  have "\<exists>ys. collect (\<lambda>r. straight_level_with_suit r (unique_loop (extract_ranks board True) []) s)
                (rev [five..num_ranks - 1]) = Inr ys"
    by (rule collect_ok) (rule straight_level_with_suit_ok)
  then show ?thesis
    by (auto simp: straight_levels_with_suit_def Let_def)
qed

lemma straight_flush_loop_ok: "\<exists>ls. straight_flush_loop subboards = Inr ls"
proof (induction subboards)
  case Nil
  show ?case by simp
next
  case (Cons sb sbs)
  obtain found where "straight_levels_with_suit sb (suit (hd sb)) = Inr found"
    using straight_levels_with_suit_ok by blast
  with Cons show ?case by auto
qed

lemma straight_flush_levels_ok: "\<exists>ls. straight_flush_levels board = Inr ls"
  using straight_flush_loop_ok[of "partition_by_suit board"]
  by (auto simp: straight_flush_levels_def)

lemma straight_levels_ok: "\<exists>ls. straight_levels board = Inr ls"
  by (simp add: straight_levels_def straight_levels_with_suit_ok)

lemma tally_loop_ok:
  "\<forall>r \<in> set rs. r \<in> set rank_range \<Longrightarrow>
     tally_loop rs t = Inr (\<lambda>r. t r + count_list rs r)"
  by (induction rs arbitrary: t) (auto simp: fun_eq_iff)

lemma tally_loop_KeyError:
  "\<not> (\<forall>r \<in> set rs. r \<in> set rank_range) \<Longrightarrow> tally_loop rs t = Inl KeyError"
  by (induction rs arbitrary: t) auto

lemma tally_ranks_ok:
  "\<forall>c \<in> set board. rank c \<in> set rank_range \<Longrightarrow>
     tally_ranks board = Inr (count_list (map rank board))"
  by (simp add: tally_ranks_def extract_ranks_def tally_loop_ok)

lemma max_tally_loop_ge: "m \<le> max_tally_loop t rs m"
proof (induction rs arbitrary: m)
  case Nil
  show ?case by simp
next
  case (Cons x xs)
  have "m \<le> (if m < t x then t x else m)" by simp
  also have "\<dots> \<le> max_tally_loop t xs (if m < t x then t x else m)"
    by (rule Cons)
  finally show ?case by simp
qed

lemma max_tally_loop_ub:
  "m \<le> b \<Longrightarrow> \<forall>r \<in> set rs. t r \<le> b \<Longrightarrow> max_tally_loop t rs m \<le> b"
  by (induction rs arbitrary: m) auto

lemma max_tally_loop_mem: "r \<in> set rs \<Longrightarrow> t r \<le> max_tally_loop t rs m"
proof (induction rs arbitrary: m)
  case Nil
  then show ?case by simp
next
  case (Cons x xs)
  show ?case
  proof (cases "r = x")
    case True
    have "t x \<le> (if m < t x then t x else m)" by simp
    also have "\<dots> \<le> max_tally_loop t xs (if m < t x then t x else m)"
      by (rule max_tally_loop_ge)
    finally show ?thesis using True by simp
  next
    case False
    with Cons show ?thesis by simp
  qed
qed

lemma max_tally_loop_attained:
  "max_tally_loop t rs m = m \<or> (\<exists>r \<in> set rs. max_tally_loop t rs m = t r)"
proof (induction rs arbitrary: m)
  case Nil
  show ?case by simp
next
  case (Cons x xs)
  from Cons[of "if m < t x then t x else m"] show ?case
    by (auto split: if_splits)
qed

lemma repeated_rank_loop_None:
  "repeated_rank_loop t rs = None \<longleftrightarrow> (\<forall>r \<in> set rs. t r \<le> 1)"
  by (induction rs) auto

lemma repeated_rank_loop_Some:
  "repeated_rank_loop t rs = Some r \<Longrightarrow>
     \<exists>pre post. rs = pre @ r # post \<and> 1 < t r \<and> (\<forall>q \<in> set pre. t q \<le> 1)"
proof (induction rs)
  case Nil
  then show ?case by simp
next
  case (Cons x xs)
  show ?case
  proof (cases "1 < t x")
    case True
    with Cons.prems have "r = x" by simp
    with True show ?thesis by (intro exI[of _ "[]"] exI[of _ xs]) auto
  next
    case False
    with Cons obtain pre post where "xs = pre @ r # post" "1 < t r" "\<forall>q \<in> set pre. t q \<le> 1"
      by auto
    with False show ?thesis by (intro exI[of _ "x # pre"] exI[of _ post]) auto
  qed
qed

lemma paired_has_repeated_rank:
  assumes "2 \<le> max_tally t"
  shows "highest_repeated_rank t \<noteq> None"
proof -
  from max_tally_loop_attained[of t rank_range 0] assms
  obtain r where "r \<in> set rank_range" "2 \<le> t r"
    by (auto simp: max_tally_def)
  then have "\<not> (\<forall>r \<in> set rank_range. t r \<le> 1)"
    by (auto intro!: bexI[of _ r])
  then show ?thesis
    by (simp add: highest_repeated_rank_def repeated_rank_loop_None)
qed

lemma tally_builders_ok:
  assumes "tally_ranks board = Inr t"
  shows "\<exists>ls. four_of_a_kind_levels board = Inr ls"
    and "\<exists>ls. full_house_levels board = Inr ls"
    and "\<exists>ls. three_of_a_kind_levels board = Inr ls"
    and "\<exists>ls. two_pair_levels board = Inr ls"
    and "\<exists>ls. one_pair_levels board = Inr ls"
    and "\<exists>ls. high_card_levels board = Inr ls"
proof -
  show "\<exists>ls. four_of_a_kind_levels board = Inr ls"
    by (simp add: four_of_a_kind_levels_def assms)
  show "\<exists>ls. full_house_levels board = Inr ls"
    by (simp add: full_house_levels_def assms Let_def)
  show "\<exists>ls. three_of_a_kind_levels board = Inr ls"
    by (simp add: three_of_a_kind_levels_def assms Let_def)
  show "\<exists>ls. one_pair_levels board = Inr ls"
    by (simp add: one_pair_levels_def assms Let_def)
  show "\<exists>ls. high_card_levels board = Inr ls"
    by (simp add: high_card_levels_def assms)
  show "\<exists>ls. two_pair_levels board = Inr ls"
  proof (cases "max_tally t = 2")
    case True
    then obtain r where "highest_repeated_rank t = Some r"
      using paired_has_repeated_rank[of t] by auto
    with True show ?thesis
      by (simp add: two_pair_levels_def assms Let_def)
  next
    case False
    then show ?thesis
      by (simp add: two_pair_levels_def assms Let_def)
  qed
qed

lemma all_levels_ok:
  assumes "\<forall>c \<in> set board. rank c \<in> set rank_range"
  shows "\<exists>ls. all_levels board = Inr (ls @ [[catch_all]])"
proof -
  note t = tally_ranks_ok[OF assms]
  obtain l1 l2 l3 l5 l6 l7 l8 l9 where
    "straight_flush_levels board = Inr l1" "four_of_a_kind_levels board = Inr l2"
    "full_house_levels board = Inr l3" "straight_levels board = Inr l5"
    "three_of_a_kind_levels board = Inr l6" "two_pair_levels board = Inr l7"
    "one_pair_levels board = Inr l8" "high_card_levels board = Inr l9"
    using straight_flush_levels_ok[of board] straight_levels_ok[of board] tally_builders_ok[OF t]
    by blast
  then have "all_levels board =
      Inr ((l1 @ l2 @ l3 @ flush_levels board @ l5 @ l6 @ l7 @ l8 @ l9) @ [[catch_all]])"
    by (simp add: all_levels_def catch_all_def)
  then show ?thesis by blast
qed

lemma all_levels_KeyError:
  assumes "\<not> (\<forall>c \<in> set board. rank c \<in> set rank_range)"
  shows "all_levels board = Inl KeyError"
proof -
  have t: "tally_ranks board = Inl KeyError"
    using assms by (auto simp: tally_ranks_def extract_ranks_def intro!: tally_loop_KeyError)
  obtain l1 where "straight_flush_levels board = Inr l1"
    using straight_flush_levels_ok by blast
  then show ?thesis
    by (simp add: all_levels_def four_of_a_kind_levels_def t)
qed

section \<open>The concrete ladder\<close>

lemma set_remaining_deck: "set (remaining_deck board) = set assemble_deck - set board"
  by (auto simp: remaining_deck_def card_is_compatible_iff)

lemma distinct_remaining_deck: "distinct (remaining_deck board)"
  by (simp add: remaining_deck_def distinct_assemble_deck)

lemma first_match_filter:
  "map (\<lambda>j. filter (\<lambda>sc. index_of_level_containing sc gl = Some j) scs) [0..<length gl] =
   map (\<lambda>j. filter (\<lambda>sc. list_ex (fulfills sc) (gl ! j) \<and>
                          (\<forall>k<j. \<not> list_ex (fulfills sc) (gl ! k))) scs) [0..<length gl]"
  by (rule map_cong[OF refl], rule filter_cong[OF refl])
     (simp add: index_of_level_containing_def index_scan_Some_iff)

lemma specify_eq:
  "specify gl board =
     Inr (remove_empty_levels
       (map (\<lambda>j. filter (\<lambda>sc. index_of_level_containing sc gl = Some j)
                    (couplets_of (remaining_deck board))) [0..<length gl]))"
  by (simp add: specify_def collect_couplify place_couplets_eq)

lemma mset_specify:
  assumes "specify (ls @ [[catch_all]]) board = Inr ladder"
  shows "mset (concat ladder) = mset (couplets_of (remaining_deck board))"
proof -
  let ?gl = "ls @ [[catch_all]]"
  have "\<forall>sc \<in> set (couplets_of (remaining_deck board)).
          \<exists>j<length ?gl. index_of_level_containing sc ?gl = Some j"
    using index_always_found index_of_level_bound
    by (metis catch_all_def not_Some_eq)
  from mset_concat_index_filter[OF this]
  have m: "mset (concat (map (\<lambda>j. filter (\<lambda>sc. index_of_level_containing sc ?gl = Some j)
             (couplets_of (remaining_deck board))) [0..<length ?gl])) =
           mset (couplets_of (remaining_deck board))" .
  have "ladder = remove_empty_levels
          (map (\<lambda>j. filter (\<lambda>sc. index_of_level_containing sc ?gl = Some j)
             (couplets_of (remaining_deck board))) [0..<length ?gl])"
    using assms unfolding specify_eq sum.inject by (rule sym)
  then show ?thesis
    by (simp only: concat_remove_empty_levels m)
qed

lemma distinct_concat_unique:
  "distinct (concat xss) \<Longrightarrow> i < length xss \<Longrightarrow> j < length xss \<Longrightarrow>
     x \<in> set (xss ! i) \<Longrightarrow> x \<in> set (xss ! j) \<Longrightarrow> i = j"
proof (induction xss arbitrary: i j)
  case Nil
  then show ?case by simp
next
  case (Cons xs xss)
  have sub: "\<And>k. k < length xss \<Longrightarrow> set (xss ! k) \<subseteq> \<Union> (set ` set xss)"
    using nth_mem by blast
  show ?case
  proof (cases i)
    case 0
    then show ?thesis
      using Cons.prems sub by (cases j) (auto; blast)+
  next
    case (Suc i')
    then show ?thesis
      using Cons sub by (cases j) (auto; blast)+
  qed
qed

lemma in_exactly_one_level:
  assumes "distinct (concat xss)" "x \<in> set (concat xss)"
  shows "\<exists>!j. j < length xss \<and> x \<in> set (xss ! j)"
proof -
  from assms(2) obtain xs where "xs \<in> set xss" "x \<in> set xs" by auto
  then obtain j where "j < length xss" "x \<in> set (xss ! j)"
    by (auto simp: in_set_conv_nth)
  then show ?thesis
    using distinct_concat_unique[OF assms(1)] by blast
qed

lemma remove_empty_levels_nonempty: "\<forall>level \<in> set (remove_empty_levels ls). level \<noteq> []"
  by (simp add: remove_empty_levels_def)

lemma card_fulfills_refl: "card_fulfills c c"
  by (simp add: card_fulfills_def)

lemma fulfills_same: "fulfills (Couplet a b) (Couplet a b)" "fulfills (Couplet a b) (Couplet b a)"
  by (simp_all add: fulfills_def card_fulfills_refl)

text \<open>
  C1. On a board whose cards have ranks of the deck, \<open>all_levels\<close> returns a generic ladder
  and \<open>specify\<close> a concrete ladder that partitions the two-card combinations of the
  remaining deck: the specific couplets list each unordered pair of distinct remaining
  cards once, the levels of the ladder together hold exactly these couplets, each couplet
  in exactly one level, each in the first generic level one of whose patterns it fulfills,
  and no level of the ladder is empty.
\<close>

theorem specify_partitions:
  assumes "list_all (\<lambda>c. rank c \<in> set rank_range) board"
  shows "\<exists>generic_levels specific_couplets ladder.
     all_levels board = Inr generic_levels \<and>
     collect couplify (subsets_of_size 2 (remaining_deck board)) = Inr specific_couplets \<and>
     specify generic_levels board = Inr ladder \<and>
     distinct (remaining_deck board) \<and>
     set (remaining_deck board) = set assemble_deck - set board \<and>
     distinct specific_couplets \<and>
     (\<forall>a b. a \<in> set (remaining_deck board) \<and> b \<in> set (remaining_deck board) \<and> a \<noteq> b \<longrightarrow>
        (Couplet a b \<in> set specific_couplets) \<noteq> (Couplet b a \<in> set specific_couplets)) \<and>
     (\<forall>c \<in> set specific_couplets.
        card_1 c \<in> set (remaining_deck board) \<and> card_2 c \<in> set (remaining_deck board) \<and>
        card_1 c \<noteq> card_2 c) \<and>
     mset (concat ladder) = mset specific_couplets \<and>
     (\<forall>c \<in> set specific_couplets. \<exists>!j. j < length ladder \<and> c \<in> set (ladder ! j)) \<and>
     ladder = remove_empty_levels
       (map (\<lambda>j. filter (\<lambda>c. list_ex (fulfills c) (generic_levels ! j) \<and>
                             (\<forall>k<j. \<not> list_ex (fulfills c) (generic_levels ! k)))
                    specific_couplets) [0..<length generic_levels]) \<and>
     (\<forall>level \<in> set ladder. level \<noteq> [])"
proof -
  let ?deck = "remaining_deck board"
  let ?scs = "couplets_of ?deck"
  from assms have "\<forall>c \<in> set board. rank c \<in> set rank_range"
    by (simp add: list_all_iff)
  from all_levels_ok[OF this] obtain ls where gl: "all_levels board = Inr (ls @ [[catch_all]])"
    by blast
  let ?gl = "ls @ [[catch_all]]"
  obtain ladder where lad: "specify ?gl board = Inr ladder"
    by (simp add: specify_eq)
  have d: "distinct ?deck" by (rule distinct_remaining_deck)
  have ms: "mset (concat ladder) = mset ?scs" by (rule mset_specify[OF lad])
  have ds: "distinct ?scs" by (rule distinct_couplets_of[OF d])
  have dl: "distinct (concat ladder)"
    using ms ds by (metis distinct_count_atmost_1 set_mset_mset)
  have sl: "set (concat ladder) = set ?scs"
    using ms by (metis set_mset_mset)
  have one: "\<forall>c \<in> set ?scs. \<exists>!j. j < length ladder \<and> c \<in> set (ladder ! j)"
    using in_exactly_one_level[OF dl] sl by blast
  have orient: "\<forall>a b. a \<in> set ?deck \<and> b \<in> set ?deck \<and> a \<noteq> b \<longrightarrow>
        (Couplet a b \<in> set ?scs) \<noteq> (Couplet b a \<in> set ?scs)"
    using couplets_of_cover[of _ ?deck] couplets_of_not_both[OF d] by blast
  have mem: "\<forall>c \<in> set ?scs. card_1 c \<in> set ?deck \<and> card_2 c \<in> set ?deck \<and> card_1 c \<noteq> card_2 c"
  proof
    fix c assume "c \<in> set ?scs"
    then show "card_1 c \<in> set ?deck \<and> card_2 c \<in> set ?deck \<and> card_1 c \<noteq> card_2 c"
      using set_couplets_of[OF d, of "card_1 c" "card_2 c"] by simp
  qed
  have first: "ladder = remove_empty_levels
       (map (\<lambda>j. filter (\<lambda>c. list_ex (fulfills c) (?gl ! j) \<and>
                             (\<forall>k<j. \<not> list_ex (fulfills c) (?gl ! k))) ?scs) [0..<length ?gl])"
    using lad unfolding specify_eq first_match_filter by simp
  have ne: "\<forall>level \<in> set ladder. level \<noteq> []"
    using lad remove_empty_levels_nonempty unfolding specify_eq by blast
  show ?thesis
    apply (rule exI[of _ ?gl], rule exI[of _ ?scs], rule exI[of _ ladder])
    apply (intro conjI)
              apply (rule gl)
             apply (rule collect_couplify)
            apply (rule lad)
           apply (rule d)
          apply (rule set_remaining_deck)
         apply (rule ds)
        apply (rule orient)
       apply (rule mem)
      apply (rule ms)
     apply (rule one)
     apply (rule first)
    apply (rule ne)
    done
qed

text \<open>The board A\<heartsuit> A\<spadesuit> K\<diamondsuit> 7\<clubsuit> 2\<heartsuit> satisfies the hypothesis of C1.\<close>

theorem specify_partitions_witness:
  "list_all (\<lambda>c. rank c \<in> set rank_range)
     [Card 12 3, Card 12 2, Card 11 1, Card 5 0, Card 0 3] \<and>
   (\<exists>generic_levels specific_couplets ladder.
      all_levels [Card 12 3, Card 12 2, Card 11 1, Card 5 0, Card 0 3] = Inr generic_levels \<and>
      collect couplify
        (subsets_of_size 2 (remaining_deck [Card 12 3, Card 12 2, Card 11 1, Card 5 0, Card 0 3])) =
        Inr specific_couplets \<and>
      specify generic_levels [Card 12 3, Card 12 2, Card 11 1, Card 5 0, Card 0 3] = Inr ladder \<and>
      distinct specific_couplets \<and>
      mset (concat ladder) = mset specific_couplets \<and>
      (\<forall>level \<in> set ladder. level \<noteq> []))"
proof -
  have h: "list_all (\<lambda>c. rank c \<in> set rank_range)
             [Card 12 3, Card 12 2, Card 11 1, Card 5 0, Card 0 3]"
    by (simp add: set_rank_range)
  from specify_partitions[OF h] obtain gl scs ladder where
    "all_levels [Card 12 3, Card 12 2, Card 11 1, Card 5 0, Card 0 3] = Inr gl"
    "collect couplify
       (subsets_of_size 2 (remaining_deck [Card 12 3, Card 12 2, Card 11 1, Card 5 0, Card 0 3])) =
       Inr scs"
    "specify gl [Card 12 3, Card 12 2, Card 11 1, Card 5 0, Card 0 3] = Inr ladder"
    "distinct scs" "mset (concat ladder) = mset scs" "\<forall>level \<in> set ladder. level \<noteq> []"
    by (elim exE conjE) (rule that)
  then have "\<exists>generic_levels specific_couplets ladder.
      all_levels [Card 12 3, Card 12 2, Card 11 1, Card 5 0, Card 0 3] = Inr generic_levels \<and>
      collect couplify
        (subsets_of_size 2 (remaining_deck [Card 12 3, Card 12 2, Card 11 1, Card 5 0, Card 0 3])) =
        Inr specific_couplets \<and>
      specify generic_levels [Card 12 3, Card 12 2, Card 11 1, Card 5 0, Card 0 3] = Inr ladder \<and>
      distinct specific_couplets \<and>
      mset (concat ladder) = mset specific_couplets \<and>
      (\<forall>level \<in> set ladder. level \<noteq> [])"
    by (intro exI conjI)
  with h show ?thesis by (rule conjI)
qed

section \<open>The any-any wildcard\<close>

text \<open>
  C6, as stated, fails: the ace of hearts fulfills the any-any pattern, but the any-any
  pattern does not fulfill the ace of hearts.
\<close>

theorem any_any_counterexample:
  "\<not> (card_fulfills (Card 12 3) (Card anything anything) \<and>
      card_fulfills (Card anything anything) (Card 12 3))"
  by (simp add: card_fulfills_def anything_def)

text \<open>
  C6, amended. Every card fulfills the any-any pattern \<open>Card(anything, anything)\<close>; the
  any-any pattern fulfills a card exactly when that card itself has the wildcard rank and
  the wildcard suit, so it fulfills no physical card.
\<close>

theorem any_any_fulfilled_by_every_card:
  "card_fulfills c (Card anything anything) \<and>
   (card_fulfills (Card anything anything) c \<longleftrightarrow> rank c = anything \<and> suit c = anything)"
  by (auto simp: card_fulfills_def)

section \<open>The level of a holding's couplets\<close>

lemma couplets_fulfil_some_level:
  assumes "distinct holding" "set holding \<subseteq> set deck" "distinct deck"
    and "set (concat ladder) = set (couplets_of deck)"
    and "c \<in> set (couplets_of holding)"
  shows "\<exists>i<length ladder. index_of_level_containing c ladder = Some i"
proof -
  obtain a b where c: "c = Couplet a b" by (cases c)
  from set_couplets_of[OF assms(1)] assms(5) c
  have ab: "a \<in> set holding" "b \<in> set holding" "a \<noteq> b" by auto
  with assms(2) have "a \<in> set deck" "b \<in> set deck" by auto
  from couplets_of_cover[OF this ab(3)]
  obtain c' where c': "c' \<in> set (couplets_of deck)" "fulfills c c'"
    using fulfills_same c by blast
  with assms(4) obtain level where "level \<in> set ladder" "c' \<in> set level" by auto
  with c'(2) have "\<not> (\<forall>l \<in> set ladder. \<not> list_ex (fulfills c) l)"
    by (auto simp: list_ex_iff)
  then have "index_of_level_containing c ladder \<noteq> None"
    by (simp add: index_of_level_containing_def index_scan_None_iff)
  then show ?thesis
    using index_of_level_bound by blast
qed

lemma best_level_loop_ok:
  "\<forall>c \<in> set cs. \<exists>i<length levels. index_of_level_containing c levels = Some i \<Longrightarrow>
     \<exists>best. best_level_loop cs levels start = Inr best \<and> best \<le> start \<and>
            (cs \<noteq> [] \<longrightarrow> best < length levels)"
proof (induction cs arbitrary: start)
  case Nil
  show ?case by simp
next
  case (Cons c cs)
  then obtain i where i: "i < length levels" "index_of_level_containing c levels = Some i"
    by auto
  from Cons.IH[of "if i < start then i else start"] Cons.prems
  obtain best where "best_level_loop cs levels (if i < start then i else start) = Inr best"
    "best \<le> (if i < start then i else start)" by auto
  with i show ?case by (auto split: if_splits)
qed

lemma best_level_loop_TypeError:
  "\<exists>c \<in> set cs. index_of_level_containing c levels = None \<Longrightarrow>
     best_level_loop cs levels start = Inl TypeError"
  by (induction cs arbitrary: start) (auto split: option.splits)

text \<open>
  C10. For a board whose cards have ranks of the deck and a holding of distinct physical
  cards, none of them on the board, \<open>index_of_level_containing\<close> returns an index of the
  concrete ladder for every two-card couplet of the holding, never \<open>None\<close>; so the loop of
  \<open>utility\<close> that compares the index with \<open>best_level_index\<close> completes without a TypeError.
\<close>

theorem holding_couplets_have_level:
  assumes "list_all (\<lambda>c. rank c \<in> set rank_range) board"
    and "list_all physical_card holding"
    and "distinct holding"
    and "list_all (\<lambda>c. card_is_compatible c board) holding"
  shows "\<exists>generic_levels ladder couplets best.
     all_levels board = Inr generic_levels \<and>
     specify generic_levels board = Inr ladder \<and>
     collect couplify (subsets_of_size 2 holding) = Inr couplets \<and>
     list_all (\<lambda>c. \<exists>i<length ladder. index_of_level_containing c ladder = Some i) couplets \<and>
     best_level_loop couplets ladder (length ladder) = Inr best"
proof -
  from assms(1) have "\<forall>c \<in> set board. rank c \<in> set rank_range"
    by (simp add: list_all_iff)
  from all_levels_ok[OF this] obtain ls where gl: "all_levels board = Inr (ls @ [[catch_all]])"
    by blast
  obtain ladder where lad: "specify (ls @ [[catch_all]]) board = Inr ladder"
    by (simp add: specify_eq)
  have sl: "set (concat ladder) = set (couplets_of (remaining_deck board))"
    using mset_specify[OF lad] by (metis set_mset_mset)
  have sub: "set holding \<subseteq> set (remaining_deck board)"
    using assms(2,4)
    by (auto simp: set_remaining_deck list_all_iff physical_card_deck card_is_compatible_iff)
  have all: "\<forall>c \<in> set (couplets_of holding).
               \<exists>i<length ladder. index_of_level_containing c ladder = Some i"
    using couplets_fulfil_some_level[OF assms(3) sub distinct_remaining_deck sl] by blast
  from best_level_loop_ok[OF all, of "length ladder"] obtain best where
    "best_level_loop (couplets_of holding) ladder (length ladder) = Inr best" by blast
  with gl lad all show ?thesis
    by (simp add: collect_couplify list_all_iff)
qed

text \<open>The holding A\<diamondsuit> K\<heartsuit> Q\<clubsuit> J\<spadesuit> on the board above satisfies the hypotheses of C10.\<close>

theorem holding_couplets_have_level_witness:
  "list_all (\<lambda>c. rank c \<in> set rank_range) [Card 12 3, Card 12 2, Card 11 1, Card 5 0, Card 0 3] \<and>
   list_all physical_card [Card 12 1, Card 11 3, Card 10 0, Card 9 2] \<and>
   distinct [Card 12 1, Card 11 3, Card 10 0, Card 9 2] \<and>
   list_all (\<lambda>c. card_is_compatible c [Card 12 3, Card 12 2, Card 11 1, Card 5 0, Card 0 3])
     [Card 12 1, Card 11 3, Card 10 0, Card 9 2] \<and>
   (\<exists>generic_levels ladder couplets best.
     all_levels [Card 12 3, Card 12 2, Card 11 1, Card 5 0, Card 0 3] = Inr generic_levels \<and>
     specify generic_levels [Card 12 3, Card 12 2, Card 11 1, Card 5 0, Card 0 3] = Inr ladder \<and>
     collect couplify (subsets_of_size 2 [Card 12 1, Card 11 3, Card 10 0, Card 9 2]) = Inr couplets \<and>
     list_all (\<lambda>c. \<exists>i<length ladder. index_of_level_containing c ladder = Some i) couplets \<and>
     best_level_loop couplets ladder (length ladder) = Inr best)"
proof -
  have h1: "list_all (\<lambda>c. rank c \<in> set rank_range)
              [Card 12 3, Card 12 2, Card 11 1, Card 5 0, Card 0 3]"
    by (simp add: set_rank_range)
  have h2: "list_all physical_card [Card 12 1, Card 11 3, Card 10 0, Card 9 2]"
    by (simp add: physical_card_def num_ranks_def num_suits_def)
  have h3: "distinct [Card 12 1, Card 11 3, Card 10 0, Card 9 2]" by simp
  have h4: "list_all (\<lambda>c. card_is_compatible c [Card 12 3, Card 12 2, Card 11 1, Card 5 0, Card 0 3])
              [Card 12 1, Card 11 3, Card 10 0, Card 9 2]"
    by (simp add: is_copy_def)
  from holding_couplets_have_level[OF h1 h2 h3 h4] h1 h2 h3 h4 show ?thesis
    by (intro conjI)
qed

section \<open>The equity engine: bounds and the degenerate case\<close>

lemma choose_le_Suc: "n choose k \<le> Suc n choose k"
  by (cases k) simp_all

lemma choose_mono_left: "m \<le> n \<Longrightarrow> m choose k \<le> n choose k"
  by (induction n) (auto simp: le_Suc_eq intro: order_trans[OF _ choose_le_Suc])

lemma true_div_bounds:
  "true_div a b = Inr p \<Longrightarrow> a \<le> b \<Longrightarrow> 0 \<le> p \<and> p \<le> 1"
  by (auto simp: true_div_def split: if_splits intro!: divide_nonneg_nonneg) 

lemma pot_fraction_loop_zero_divisor:
  "(e + w) choose num_opponents_couplets = 0 \<Longrightarrow> pot_fraction_loop ks e w acc = acc"
  by (cases ks) (simp_all add: true_div_def)

lemma pot_fraction_loop_sum:
  "(e + w) choose num_opponents_couplets \<noteq> 0 \<Longrightarrow>
   pot_fraction_loop ks e w acc =
     acc + (\<Sum>k\<leftarrow>ks. of_nat ((e choose k) * (w choose (num_opponents_couplets - k))) /
                     of_nat ((e + w) choose num_opponents_couplets) / of_nat (k + 1))"
  by (induction ks arbitrary: acc) (simp_all add: true_div_def)

lemma hypergeometric_sum:
  fixes e w N :: nat
  assumes "(e + w) choose N \<noteq> 0"
  shows "(\<Sum>k\<le>N. (of_nat ((e choose k) * (w choose (N - k))) :: rat) / of_nat ((e + w) choose N)) = 1"
proof -
  have "(\<Sum>k\<le>N. (of_nat ((e choose k) * (w choose (N - k))) :: rat) / of_nat ((e + w) choose N)) =
        of_nat (\<Sum>k\<le>N. (e choose k) * (w choose (N - k))) / of_nat ((e + w) choose N)"
    by (simp add: sum_divide_distrib)
  also have "\<dots> = 1"
    using assms by (simp add: vandermonde)
  finally show ?thesis .
qed

lemma pot_fraction_sum_bounds:
  fixes e w N m :: nat
  assumes "(e + w) choose N \<noteq> 0" "m \<le> N + 1"
  shows "0 \<le> (\<Sum>k\<leftarrow>[0..<m]. (of_nat ((e choose k) * (w choose (N - k))) :: rat) /
                 of_nat ((e + w) choose N) / of_nat (k + 1))"
    and "(\<Sum>k\<leftarrow>[0..<m]. (of_nat ((e choose k) * (w choose (N - k))) :: rat) /
                 of_nat ((e + w) choose N) / of_nat (k + 1)) \<le> 1"
proof -
  let ?t = "\<lambda>k. (of_nat ((e choose k) * (w choose (N - k))) :: rat) / of_nat ((e + w) choose N)"
  have nn: "\<And>k. 0 \<le> ?t k" by simp
  show "0 \<le> (\<Sum>k\<leftarrow>[0..<m]. ?t k / of_nat (k + 1))"
    by (rule sum_list_nonneg) (auto intro!: divide_nonneg_nonneg)
  have "(\<Sum>k\<leftarrow>[0..<m]. ?t k / of_nat (k + 1)) = (\<Sum>k\<in>{0..<m}. ?t k / of_nat (k + 1))"
    by (simp add: interv_sum_list_conv_sum_set_nat)
  also have "\<dots> \<le> (\<Sum>k\<in>{0..<m}. ?t k)"
  proof (rule sum_mono)
    fix k
    have "?t k / of_nat (k + 1) \<le> ?t k / 1"
      by (rule divide_left_mono) (use nn in auto)
    then show "?t k / of_nat (k + 1) \<le> ?t k" by simp
  qed
  also have "\<dots> \<le> (\<Sum>k\<in>{..N}. ?t k)"
    by (rule sum_mono2) (use assms(2) nn in auto)
  also have "\<dots> = 1"
    by (rule hypergeometric_sum[OF assms(1)])
  finally show "(\<Sum>k\<leftarrow>[0..<m]. ?t k / of_nat (k + 1)) \<le> 1" .
qed

lemma pot_fraction_bounds:
  "0 \<le> pot_fraction_loop [0..<min (e + 1) (num_opponents_couplets + 1)] e w 0 \<and>
   pot_fraction_loop [0..<min (e + 1) (num_opponents_couplets + 1)] e w 0 \<le> 1"
proof (cases "(e + w) choose num_opponents_couplets = 0")
  case True
  then show ?thesis by (simp only: pot_fraction_loop_zero_divisor) simp
next
  case False
  have "min (e + 1) (num_opponents_couplets + 1) \<le> num_opponents_couplets + 1" by simp
  from pot_fraction_sum_bounds[OF False this] show ?thesis
    by (simp only: pot_fraction_loop_sum[OF False]) simp
qed

lemma utility_value_in_unit_interval:
  assumes "utility holding board = Inr v"
  shows "0 \<le> v \<and> v \<le> 1"
proof -
  from assms obtain b e w p where
    p: "true_div ((e + w) choose num_opponents_couplets)
                 ((b + e + w) choose num_opponents_couplets) = Inr p" and
    v: "v = p * pot_fraction_loop [0..<min (e + 1) (num_opponents_couplets + 1)] e w 0"
    by (auto simp: utility_def Let_def split: sum.splits if_splits)
  have "(e + w) choose num_opponents_couplets \<le> (b + e + w) choose num_opponents_couplets"
    by (rule choose_mono_left) simp
  from true_div_bounds[OF p this] pot_fraction_bounds[of e w] show ?thesis
    unfolding v by (auto intro: mult_nonneg_nonneg mult_le_one)
qed

lemma is_compatible_iff:
  "is_compatible c cards \<longleftrightarrow> card_1 c \<notin> set cards \<and> card_2 c \<notin> set cards"
  by (simp add: is_compatible_def card_is_compatible_iff)

lemma length_filter_mset_eq:
  "mset xs = mset ys \<Longrightarrow> length (filter P xs) = length (filter P ys)"
  by (metis mset_filter size_mset)

lemma compatible_couplets_count:
  assumes "mset (concat ladder) = mset (couplets_of deck)"
  shows "length (remove_incompatible_couplets (concat ladder) holding) =
         length (filter (\<lambda>c. card_is_compatible c holding) deck) choose 2"
proof -
  have "length (remove_incompatible_couplets (concat ladder) holding) =
        length (filter (\<lambda>c. is_compatible c holding) (couplets_of deck))"
    unfolding remove_incompatible_couplets_def by (rule length_filter_mset_eq[OF assms])
  also have "filter (\<lambda>c. is_compatible c holding) (couplets_of deck) =
             couplets_of (filter (\<lambda>c. card_is_compatible c holding) deck)"
    unfolding is_compatible_def by (rule filter_couplets_of)
  finally show ?thesis by (simp add: length_couplets_of)
qed

lemma split_counts:
  assumes "best < length levels"
  shows "length (remove_incompatible_couplets (flatten (take best levels)) holding) +
         length (remove_incompatible_couplets (levels ! best) holding) +
         length (remove_incompatible_couplets (flatten (drop (best + 1) levels)) holding) =
         length (remove_incompatible_couplets (concat levels) holding)"
proof -
  have "concat levels = concat (take best levels) @ levels ! best @ concat (drop (Suc best) levels)"
    using id_take_nth_drop[OF assms] by (metis concat.simps(2) concat_append)
  then show ?thesis
    by (simp add: remove_incompatible_couplets_def flatten_concat)
qed

lemma couplets_of_nonempty: "2 \<le> length cs \<Longrightarrow> couplets_of cs \<noteq> []"
proof -
  assume "2 \<le> length cs"
  then have "0 < length cs choose 2" by simp
  then show ?thesis by (metis length_couplets_of length_greater_0_conv)
qed

text \<open>The shape of utility once the ladder is built and every couplet of the holding has a level.\<close>

lemma utility_after_lookup:
  assumes board: "\<forall>c \<in> set board. rank c \<in> set rank_range"
    and h: "distinct holding" "set holding \<subseteq> set (remaining_deck board)" "2 \<le> length holding"
  shows "\<exists>b e w. b + e + w =
            length (filter (\<lambda>c. card_is_compatible c holding) (remaining_deck board)) choose 2 \<and>
          utility holding board =
            (case true_div ((e + w) choose num_opponents_couplets)
                           ((b + e + w) choose num_opponents_couplets) of
               Inl er \<Rightarrow> Inl er
             | Inr p \<Rightarrow>
                 Inr (p * pot_fraction_loop [0..<min (e + 1) (num_opponents_couplets + 1)] e w 0))"
proof -
  from all_levels_ok[OF board] obtain ls where gl: "all_levels board = Inr (ls @ [[catch_all]])"
    by blast
  obtain ladder where lad: "specify (ls @ [[catch_all]]) board = Inr ladder"
    by (simp add: specify_eq)
  note ms = mset_specify[OF lad]
  have sl: "set (concat ladder) = set (couplets_of (remaining_deck board))"
    using ms by (metis set_mset_mset)
  have all: "\<forall>c \<in> set (couplets_of holding).
               \<exists>i<length ladder. index_of_level_containing c ladder = Some i"
    using couplets_fulfil_some_level[OF h(1,2) distinct_remaining_deck sl] by blast
  from best_level_loop_ok[OF all, of "length ladder"] couplets_of_nonempty[OF h(3)]
  obtain best where best: "best_level_loop (couplets_of holding) ladder (length ladder) = Inr best"
    "best < length ladder" by blast
  let ?b = "length (remove_incompatible_couplets (flatten (take best ladder)) holding)"
  let ?e = "length (remove_incompatible_couplets (ladder ! best) holding)"
  let ?w = "length (remove_incompatible_couplets (flatten (drop (best + 1) ladder)) holding)"
  have total: "?b + ?e + ?w =
      length (filter (\<lambda>c. card_is_compatible c holding) (remaining_deck board)) choose 2"
    using split_counts[OF best(2)] compatible_couplets_count[OF ms] by simp
  have "utility holding board =
          (case true_div ((?e + ?w) choose num_opponents_couplets)
                         ((?b + ?e + ?w) choose num_opponents_couplets) of
             Inl er \<Rightarrow> Inl er
           | Inr p \<Rightarrow>
               Inr (p * pot_fraction_loop [0..<min (?e + 1) (num_opponents_couplets + 1)] ?e ?w 0))"
    using gl lad best by (simp add: utility_def collect_couplify Let_def cong: sum.case_cong)
  with total show ?thesis by blast
qed

lemma utility_raises_when_few_couplets:
  assumes "\<forall>c \<in> set board. rank c \<in> set rank_range"
    and "distinct holding" "set holding \<subseteq> set (remaining_deck board)" "2 \<le> length holding"
    and "length (filter (\<lambda>c. card_is_compatible c holding) (remaining_deck board)) choose 2
           < num_opponents_couplets"
  shows "utility holding board = Inl ZeroDivisionError"
proof -
  from utility_after_lookup[OF assms(1-4)] obtain b e w where
    t: "b + e + w =
          length (filter (\<lambda>c. card_is_compatible c holding) (remaining_deck board)) choose 2" and
    u: "utility holding board =
          (case true_div ((e + w) choose num_opponents_couplets)
                         ((b + e + w) choose num_opponents_couplets) of
             Inl er \<Rightarrow> Inl er
           | Inr p \<Rightarrow>
               Inr (p * pot_fraction_loop [0..<min (e + 1) (num_opponents_couplets + 1)] e w 0))"
    by blast
  from t assms(5) have "(b + e + w) choose num_opponents_couplets = 0" by simp
  then show ?thesis unfolding u by (simp add: true_div_def)
qed

lemma utility_returns_when_enough_couplets:
  assumes "\<forall>c \<in> set board. rank c \<in> set rank_range"
    and "distinct holding" "set holding \<subseteq> set (remaining_deck board)" "2 \<le> length holding"
    and "num_opponents_couplets \<le>
           length (filter (\<lambda>c. card_is_compatible c holding) (remaining_deck board)) choose 2"
  shows "\<exists>v. utility holding board = Inr v"
proof -
  from utility_after_lookup[OF assms(1-4)] obtain b e w where
    t: "b + e + w =
          length (filter (\<lambda>c. card_is_compatible c holding) (remaining_deck board)) choose 2" and
    u: "utility holding board =
          (case true_div ((e + w) choose num_opponents_couplets)
                         ((b + e + w) choose num_opponents_couplets) of
             Inl er \<Rightarrow> Inl er
           | Inr p \<Rightarrow>
               Inr (p * pot_fraction_loop [0..<min (e + 1) (num_opponents_couplets + 1)] e w 0))"
    by blast
  from t assms(5) have "(b + e + w) choose num_opponents_couplets \<noteq> 0" by simp
  then show ?thesis unfolding u by (simp add: true_div_def)
qed

lemma remaining_cards_bound:
  "length assemble_deck - length board - length holding \<le>
     length (filter (\<lambda>c. card_is_compatible c holding) (remaining_deck board))"
proof -
  let ?S = "set board \<union> set holding"
  have eq: "filter (\<lambda>c. card_is_compatible c holding) (remaining_deck board) =
        filter (\<lambda>c. c \<notin> ?S) assemble_deck"
    by (auto simp: remaining_deck_def card_is_compatible_iff intro: filter_cong)
  have "length (filter (\<lambda>c. c \<in> ?S) assemble_deck) = card ({c. c \<in> ?S} \<inter> set assemble_deck)"
    by (rule distinct_length_filter[OF distinct_assemble_deck])
  also have "\<dots> \<le> card ?S"
    by (rule card_mono) auto
  also have "\<dots> \<le> length board + length holding"
    by (meson card_Un_le card_length add_mono order_trans)
  finally have le: "length (filter (\<lambda>c. c \<in> ?S) assemble_deck) \<le> length board + length holding" .
  have "length (filter (\<lambda>c. c \<in> ?S) assemble_deck) + length (filter (\<lambda>c. c \<notin> ?S) assemble_deck) =
        length assemble_deck"
    by (rule sum_length_filter_compl)
  with le show ?thesis unfolding eq by arith
qed

lemma holding_in_remaining_deck:
  "list_all physical_card holding \<Longrightarrow> list_all (\<lambda>c. card_is_compatible c board) holding \<Longrightarrow>
     set holding \<subseteq> set (remaining_deck board)"
  by (auto simp: set_remaining_deck list_all_iff physical_card_deck card_is_compatible_iff)

text \<open>
  C4. Whenever \<open>utility\<close> returns a value, the value lies between 0 and 1. And it does
  return a value, between 0 and 1, for a holding of two or more distinct physical cards,
  none of them on the board, on a board whose cards have ranks of the deck, when the cards
  left in the deck make at least as many couplets as the opponents hold; a board of five
  cards and a holding of four leave 903 couplets for the 30 of the opponents. The quotients
  are exact rationals in the model.
\<close>

theorem utility_bounds:
  "(utility holding board = Inr v \<longrightarrow> 0 \<le> v \<and> v \<le> 1) \<and>
   (list_all (\<lambda>c. rank c \<in> set rank_range) board \<and>
    list_all physical_card holding \<and> distinct holding \<and>
    list_all (\<lambda>c. card_is_compatible c board) holding \<and> 2 \<le> length holding \<and>
    num_opponents_couplets \<le> (length assemble_deck - length board - length holding) choose 2 \<longrightarrow>
    (\<exists>u. utility holding board = Inr u \<and> 0 \<le> u \<and> u \<le> 1))"
proof (intro conjI impI)
  assume "utility holding board = Inr v"
  then show "0 \<le> v" "v \<le> 1"
    using utility_value_in_unit_interval by blast+
next
  assume a: "list_all (\<lambda>c. rank c \<in> set rank_range) board \<and>
    list_all physical_card holding \<and> distinct holding \<and>
    list_all (\<lambda>c. card_is_compatible c board) holding \<and> 2 \<le> length holding \<and>
    num_opponents_couplets \<le> (length assemble_deck - length board - length holding) choose 2"
  then have board: "\<forall>c \<in> set board. rank c \<in> set rank_range"
    by (simp add: list_all_iff)
  from a have sub: "set holding \<subseteq> set (remaining_deck board)"
    by (simp add: holding_in_remaining_deck)
  have "(length assemble_deck - length board - length holding) choose 2 \<le>
        length (filter (\<lambda>c. card_is_compatible c holding) (remaining_deck board)) choose 2"
    by (rule choose_mono_left[OF remaining_cards_bound])
  with a have "num_opponents_couplets \<le>
        length (filter (\<lambda>c. card_is_compatible c holding) (remaining_deck board)) choose 2"
    by linarith
  from utility_returns_when_enough_couplets[OF board _ sub _ this] a
  obtain u where "utility holding board = Inr u" by blast
  then show "\<exists>u. utility holding board = Inr u \<and> 0 \<le> u \<and> u \<le> 1"
    using utility_value_in_unit_interval by blast
qed

lemma opponents_couplets_30: "num_opponents_couplets = 30"
  by (simp add: num_opponents_couplets_def num_opponents_def num_couplets_per_holding_def
      num_players_def holding_size_def)

text \<open>The holding A\<diamondsuit> K\<heartsuit> Q\<clubsuit> J\<spadesuit> on the board A\<heartsuit> A\<spadesuit> K\<diamondsuit> 7\<clubsuit> 2\<heartsuit> satisfies the hypotheses of C4.\<close>

theorem utility_bounds_witness:
  "list_all (\<lambda>c. rank c \<in> set rank_range) [Card 12 3, Card 12 2, Card 11 1, Card 5 0, Card 0 3] \<and>
   list_all physical_card [Card 12 1, Card 11 3, Card 10 0, Card 9 2] \<and>
   distinct [Card 12 1, Card 11 3, Card 10 0, Card 9 2] \<and>
   list_all (\<lambda>c. card_is_compatible c [Card 12 3, Card 12 2, Card 11 1, Card 5 0, Card 0 3])
     [Card 12 1, Card 11 3, Card 10 0, Card 9 2] \<and>
   2 \<le> length [Card 12 1, Card 11 3, Card 10 0, Card 9 2] \<and>
   num_opponents_couplets \<le>
     (length assemble_deck - length [Card 12 3, Card 12 2, Card 11 1, Card 5 0, Card 0 3]
        - length [Card 12 1, Card 11 3, Card 10 0, Card 9 2]) choose 2 \<and>
   (\<exists>u. utility [Card 12 1, Card 11 3, Card 10 0, Card 9 2]
            [Card 12 3, Card 12 2, Card 11 1, Card 5 0, Card 0 3] = Inr u \<and> 0 \<le> u \<and> u \<le> 1)"
proof -
  have h: "list_all (\<lambda>c. rank c \<in> set rank_range) [Card 12 3, Card 12 2, Card 11 1, Card 5 0, Card 0 3] \<and>
   list_all physical_card [Card 12 1, Card 11 3, Card 10 0, Card 9 2] \<and>
   distinct [Card 12 1, Card 11 3, Card 10 0, Card 9 2] \<and>
   list_all (\<lambda>c. card_is_compatible c [Card 12 3, Card 12 2, Card 11 1, Card 5 0, Card 0 3])
     [Card 12 1, Card 11 3, Card 10 0, Card 9 2] \<and>
   2 \<le> length [Card 12 1, Card 11 3, Card 10 0, Card 9 2] \<and>
   num_opponents_couplets \<le>
     (length assemble_deck - length [Card 12 3, Card 12 2, Card 11 1, Card 5 0, Card 0 3]
        - length [Card 12 1, Card 11 3, Card 10 0, Card 9 2]) choose 2"
    by (simp add: set_rank_range physical_card_def num_ranks_def num_suits_def is_copy_def
        length_assemble_deck opponents_couplets_30 choose_two)
  from utility_bounds[of "[Card 12 1, Card 11 3, Card 10 0, Card 9 2]"
      "[Card 12 3, Card 12 2, Card 11 1, Card 5 0, Card 0 3]"] h
  have "\<exists>u. utility [Card 12 1, Card 11 3, Card 10 0, Card 9 2]
            [Card 12 3, Card 12 2, Card 11 1, Card 5 0, Card 0 3] = Inr u \<and> 0 \<le> u \<and> u \<le> 1"
    by blast
  with h show ?thesis by (elim conjE) (intro conjI; assumption)
qed

lemma forty_count:
  "length (filter (\<lambda>c. card_is_compatible c [Card 12 3, Card 12 2, Card 12 1, Card 12 0])
             (remaining_deck forty_card_board)) = 8"
  by code_simp

text \<open>
  C3. With the four aces as the holding and the forty cards from the deuces to the jacks
  as the board, eight cards remain, which make 28 couplets, fewer than the 30 couplets of
  the opponents. C3 says that \<open>utility\<close> returns 0 there; the division that computes
  \<open>prob_best_hand\<close> stands before the \<open>try\<close> block and raises ZeroDivisionError.
\<close>

theorem utility_degenerate_raises:
  "length (filter (\<lambda>c. card_is_compatible c [Card 12 3, Card 12 2, Card 12 1, Card 12 0])
             (remaining_deck forty_card_board)) choose 2 < num_opponents_couplets \<and>
   utility [Card 12 3, Card 12 2, Card 12 1, Card 12 0] forty_card_board = Inl ZeroDivisionError"
proof -
  have b: "\<forall>c \<in> set forty_card_board. rank c \<in> set rank_range"
    by (auto simp: forty_card_board_def set_rank_range)
  have d: "distinct [Card 12 3, Card 12 2, Card 12 1, Card 12 0]" by simp
  have p: "list_all physical_card [Card 12 3, Card 12 2, Card 12 1, Card 12 0]"
    by (simp add: physical_card_def num_ranks_def num_suits_def)
  have c: "list_all (\<lambda>c. card_is_compatible c forty_card_board)
             [Card 12 3, Card 12 2, Card 12 1, Card 12 0]"
    by (auto simp: card_is_compatible_iff forty_card_board_def)
  have l: "2 \<le> length [Card 12 3, Card 12 2, Card 12 1, Card 12 0]" by simp
  have n: "length (filter (\<lambda>c. card_is_compatible c [Card 12 3, Card 12 2, Card 12 1, Card 12 0])
             (remaining_deck forty_card_board)) choose 2 < num_opponents_couplets"
    unfolding forty_count opponents_couplets_30 by (simp add: choose_two)
  from utility_raises_when_few_couplets[OF b d holding_in_remaining_deck[OF p c] l n] n
  show ?thesis by simp
qed

section \<open>Repeated and shared cards\<close>

lemma card_fulfills_physical: "physical_card x \<Longrightarrow> card_fulfills a x \<longleftrightarrow> a = x"
  by (auto simp: card_fulfills_def physical_card_def anything_def num_ranks_def num_suits_def
      Card.expand)

lemma fulfills_physical:
  "physical_card x \<Longrightarrow> physical_card y \<Longrightarrow>
     fulfills (Couplet a b) (Couplet x y) \<longleftrightarrow> (a = x \<and> b = y) \<or> (a = y \<and> b = x)"
  by (simp add: fulfills_def card_fulfills_physical)

lemma no_level_for_misdealt_couplet:
  assumes sl: "set (concat ladder) = set (couplets_of (remaining_deck board))"
    and bad: "a \<in> set board \<or> b \<in> set board \<or> a = b"
  shows "index_of_level_containing (Couplet a b) ladder = None"
proof -
  have "\<not> fulfills (Couplet a b) c'" if "c' \<in> set (concat ladder)" for c'
  proof -
    obtain x y where c': "c' = Couplet x y" by (cases c')
    from that c' have "Couplet x y \<in> set (couplets_of (remaining_deck board))"
      unfolding sl by simp
    from set_couplets_of[OF distinct_remaining_deck this]
    have xy: "x \<in> set (remaining_deck board)" "y \<in> set (remaining_deck board)" "x \<noteq> y"
      by auto
    then have "physical_card x" "physical_card y" "x \<notin> set board" "y \<notin> set board"
      by (auto simp: set_remaining_deck physical_card_deck)
    with bad xy(3) show ?thesis
      unfolding c' by (auto simp: fulfills_physical)
  qed
  then have "\<forall>l \<in> set ladder. \<not> list_ex (fulfills (Couplet a b)) l"
    by (auto simp: list_ex_iff)
  then show ?thesis
    by (simp add: index_of_level_containing_def index_scan_None_iff)
qed

lemma repeated_card_couplet:
  "\<not> distinct cs \<Longrightarrow> \<exists>a. Couplet a a \<in> set (couplets_of cs)"
  by (induction cs) auto

lemma couplet_with_card:
  "a \<in> set cs \<Longrightarrow> 2 \<le> length cs \<Longrightarrow>
     \<exists>b. Couplet a b \<in> set (couplets_of cs) \<or> Couplet b a \<in> set (couplets_of cs)"
proof (induction cs)
  case Nil
  then show ?case by simp
next
  case (Cons c cs)
  show ?case
  proof (cases "a = c")
    case True
    from Cons.prems(2) obtain d ds where "cs = d # ds" by (cases cs) auto
    with True show ?thesis by auto
  next
    case False
    with Cons.prems have "a \<in> set cs" by simp
    then show ?thesis by auto
  qed
qed

lemma utility_TypeError:
  assumes board: "\<forall>c \<in> set board. rank c \<in> set rank_range"
    and bad: "Couplet a b \<in> set (couplets_of holding)" "a \<in> set board \<or> b \<in> set board \<or> a = b"
  shows "\<exists>generic_levels ladder.
           all_levels board = Inr generic_levels \<and> specify generic_levels board = Inr ladder \<and>
           utility holding board = Inl TypeError"
proof -
  from all_levels_ok[OF board] obtain ls where gl: "all_levels board = Inr (ls @ [[catch_all]])"
    by blast
  obtain ladder where lad: "specify (ls @ [[catch_all]]) board = Inr ladder"
    by (simp add: specify_eq)
  have sl: "set (concat ladder) = set (couplets_of (remaining_deck board))"
    using mset_specify[OF lad] by (metis set_mset_mset)
  from no_level_for_misdealt_couplet[OF sl bad(2)] bad(1)
  have "\<exists>c \<in> set (couplets_of holding). index_of_level_containing c ladder = None"
    by blast
  from best_level_loop_TypeError[OF this]
  have "utility holding board = Inl TypeError"
    using gl lad by (simp add: utility_def collect_couplify)
  with gl lad show ?thesis by blast
qed

lemma utility_returns_for_dealt_holding:
  assumes "list_all (\<lambda>c. rank c \<in> set rank_range) board"
    and "list_all physical_card holding" "distinct holding"
    and "list_all (\<lambda>c. card_is_compatible c board) holding" "2 \<le> length holding"
    and "num_opponents_couplets \<le> (length assemble_deck - length board - length holding) choose 2"
  shows "\<exists>v. utility holding board = Inr v"
proof -
  from assms(1) have board: "\<forall>c \<in> set board. rank c \<in> set rank_range"
    by (simp add: list_all_iff)
  have "(length assemble_deck - length board - length holding) choose 2 \<le>
        length (filter (\<lambda>c. card_is_compatible c holding) (remaining_deck board)) choose 2"
    by (rule choose_mono_left[OF remaining_cards_bound])
  with assms(6) have "num_opponents_couplets \<le>
        length (filter (\<lambda>c. card_is_compatible c holding) (remaining_deck board)) choose 2"
    by linarith
  from utility_returns_when_enough_couplets[OF board assms(3)
      holding_in_remaining_deck[OF assms(2,4)] assms(5) this]
  show ?thesis .
qed

text \<open>
  C2, as stated, fails: \<open>utility\<close> has no validation. On a board that holds the ace of
  hearts twice it raises nothing and returns a value.
\<close>

theorem utility_accepts_repeated_board_card:
  "\<not> distinct [Card 12 3, Card 12 3, Card 11 1, Card 5 0, Card 0 3] \<and>
   \<not> isl (utility [Card 12 1, Card 11 3, Card 10 0, Card 9 2]
              [Card 12 3, Card 12 3, Card 11 1, Card 5 0, Card 0 3])"
proof -
  have "\<exists>v. utility [Card 12 1, Card 11 3, Card 10 0, Card 9 2]
              [Card 12 3, Card 12 3, Card 11 1, Card 5 0, Card 0 3] = Inr v"
    by (rule utility_returns_for_dealt_holding)
       (simp_all add: set_rank_range physical_card_def num_ranks_def num_suits_def is_copy_def
          length_assemble_deck opponents_couplets_30 choose_two)
  then show ?thesis by auto
qed

text \<open>
  C2, amended. \<open>utility\<close> does not validate its arguments. On a board whose cards have ranks
  of the deck, a holding that repeats a card, or that has two cards or more one of which is
  on the board, makes it raise TypeError in the level lookup, after \<open>all_levels\<close> and
  \<open>specify\<close> have built the ladder. A repeated card on the board is not detected: for a
  holding of two or more distinct physical cards, none of them on the board, it returns a
  value whenever the deck leaves enough couplets for the opponents.
\<close>

theorem utility_without_validation:
  assumes "list_all (\<lambda>c. rank c \<in> set rank_range) board"
  shows "(\<not> distinct holding \<or>
          (2 \<le> length holding \<and> \<not> list_all (\<lambda>c. card_is_compatible c board) holding) \<longrightarrow>
          (\<exists>generic_levels ladder.
             all_levels board = Inr generic_levels \<and> specify generic_levels board = Inr ladder \<and>
             utility holding board = Inl TypeError)) \<and>
         (list_all physical_card holding \<and> distinct holding \<and>
          list_all (\<lambda>c. card_is_compatible c board) holding \<and> 2 \<le> length holding \<and>
          num_opponents_couplets \<le> (length assemble_deck - length board - length holding) choose 2 \<longrightarrow>
          (\<exists>v. utility holding board = Inr v))"
proof (intro conjI impI)
  from assms have board: "\<forall>c \<in> set board. rank c \<in> set rank_range"
    by (simp add: list_all_iff)
  {
    assume "\<not> distinct holding \<or>
            (2 \<le> length holding \<and> \<not> list_all (\<lambda>c. card_is_compatible c board) holding)"
    then consider (dup) "\<not> distinct holding"
      | (overlap) a where "2 \<le> length holding" "a \<in> set holding" "a \<in> set board"
      by (auto simp: list_all_iff card_is_compatible_iff)
    then show "\<exists>generic_levels ladder.
             all_levels board = Inr generic_levels \<and> specify generic_levels board = Inr ladder \<and>
             utility holding board = Inl TypeError"
    proof cases
      case dup
      from repeated_card_couplet[OF dup] obtain a where "Couplet a a \<in> set (couplets_of holding)"
        by blast
      from utility_TypeError[OF board this] show ?thesis by simp
    next
      case overlap
      from couplet_with_card[OF overlap(2,1)] obtain b where
        "Couplet a b \<in> set (couplets_of holding) \<or> Couplet b a \<in> set (couplets_of holding)"
        by blast
      then show ?thesis
        using utility_TypeError[OF board, of a b holding] utility_TypeError[OF board, of b a holding]
          overlap(3) by blast
    qed
  }
  {
    assume a: "list_all physical_card holding \<and> distinct holding \<and>
          list_all (\<lambda>c. card_is_compatible c board) holding \<and> 2 \<le> length holding \<and>
          num_opponents_couplets \<le> (length assemble_deck - length board - length holding) choose 2"
    with assms utility_returns_for_dealt_holding[of board holding]
    show "\<exists>v. utility holding board = Inr v" by blast
  }
qed

text \<open>
  The holding A\<heartsuit> K\<heartsuit> Q\<clubsuit> J\<spadesuit> shares the ace of hearts with the board A\<heartsuit> A\<spadesuit> K\<diamondsuit> 7\<clubsuit> 2\<heartsuit>; the
  holding A\<diamondsuit> K\<heartsuit> Q\<clubsuit> J\<spadesuit> shares no card with it.
\<close>

theorem utility_without_validation_witness:
  "list_all (\<lambda>c. rank c \<in> set rank_range) [Card 12 3, Card 12 2, Card 11 1, Card 5 0, Card 0 3] \<and>
   2 \<le> length [Card 12 3, Card 11 3, Card 10 0, Card 9 2] \<and>
   \<not> list_all (\<lambda>c. card_is_compatible c [Card 12 3, Card 12 2, Card 11 1, Card 5 0, Card 0 3])
        [Card 12 3, Card 11 3, Card 10 0, Card 9 2] \<and>
   utility [Card 12 3, Card 11 3, Card 10 0, Card 9 2]
     [Card 12 3, Card 12 2, Card 11 1, Card 5 0, Card 0 3] = Inl TypeError \<and>
   list_all physical_card [Card 12 1, Card 11 3, Card 10 0, Card 9 2] \<and>
   distinct [Card 12 1, Card 11 3, Card 10 0, Card 9 2] \<and>
   list_all (\<lambda>c. card_is_compatible c [Card 12 3, Card 12 2, Card 11 1, Card 5 0, Card 0 3])
     [Card 12 1, Card 11 3, Card 10 0, Card 9 2] \<and>
   2 \<le> length [Card 12 1, Card 11 3, Card 10 0, Card 9 2] \<and>
   num_opponents_couplets \<le>
     (length assemble_deck - length [Card 12 3, Card 12 2, Card 11 1, Card 5 0, Card 0 3]
        - length [Card 12 1, Card 11 3, Card 10 0, Card 9 2]) choose 2 \<and>
   (\<exists>v. utility [Card 12 1, Card 11 3, Card 10 0, Card 9 2]
           [Card 12 3, Card 12 2, Card 11 1, Card 5 0, Card 0 3] = Inr v)"
proof -
  have b: "list_all (\<lambda>c. rank c \<in> set rank_range)
             [Card 12 3, Card 12 2, Card 11 1, Card 5 0, Card 0 3]"
    by (simp add: set_rank_range)
  have h1: "2 \<le> length [Card 12 3, Card 11 3, Card 10 0, Card 9 2] \<and>
     \<not> list_all (\<lambda>c. card_is_compatible c [Card 12 3, Card 12 2, Card 11 1, Card 5 0, Card 0 3])
        [Card 12 3, Card 11 3, Card 10 0, Card 9 2]"
    by (simp add: is_copy_def)
  have h2: "list_all physical_card [Card 12 1, Card 11 3, Card 10 0, Card 9 2] \<and>
     distinct [Card 12 1, Card 11 3, Card 10 0, Card 9 2] \<and>
     list_all (\<lambda>c. card_is_compatible c [Card 12 3, Card 12 2, Card 11 1, Card 5 0, Card 0 3])
       [Card 12 1, Card 11 3, Card 10 0, Card 9 2] \<and>
     2 \<le> length [Card 12 1, Card 11 3, Card 10 0, Card 9 2] \<and>
     num_opponents_couplets \<le>
       (length assemble_deck - length [Card 12 3, Card 12 2, Card 11 1, Card 5 0, Card 0 3]
          - length [Card 12 1, Card 11 3, Card 10 0, Card 9 2]) choose 2"
    by (simp add: physical_card_def num_ranks_def num_suits_def is_copy_def
        length_assemble_deck opponents_couplets_30 choose_two)
  from utility_without_validation[OF b, of "[Card 12 3, Card 11 3, Card 10 0, Card 9 2]"] h1
  have t: "utility [Card 12 3, Card 11 3, Card 10 0, Card 9 2]
     [Card 12 3, Card 12 2, Card 11 1, Card 5 0, Card 0 3] = Inl TypeError"
    by blast
  from utility_without_validation[OF b, of "[Card 12 1, Card 11 3, Card 10 0, Card 9 2]"] h2
  have v: "\<exists>v. utility [Card 12 1, Card 11 3, Card 10 0, Card 9 2]
           [Card 12 3, Card 12 2, Card 11 1, Card 5 0, Card 0 3] = Inr v"
    by blast
  from b h1 t h2 v show ?thesis
    by (elim conjE) (intro conjI; assumption)
qed

section \<open>The highest repeated rank\<close>

lemma max_tally_unpaired:
  "max_tally t < 2 \<longleftrightarrow> (\<forall>r \<in> set rank_range. t r < 2)"
proof
  assume "max_tally t < 2"
  then show "\<forall>r \<in> set rank_range. t r < 2"
    using max_tally_loop_mem[of _ rank_range t 0] by (fastforce simp: max_tally_def)
next
  assume "\<forall>r \<in> set rank_range. t r < 2"
  then have "\<forall>r \<in> set rank_range. t r \<le> 1" by auto
  from max_tally_loop_ub[OF _ this, of 0] show "max_tally t < 2"
    by (simp add: max_tally_def)
qed

lemma rank_range_descending: "sorted_wrt (\<lambda>x y. y < x) rank_range"
  unfolding rank_range_def sorted_wrt_rev
  by (simp add: strict_sorted_iff[symmetric] flip: strict_sorted_iff)

lemma highest_repeated_rank_Some:
  assumes "highest_repeated_rank t = Some r"
  shows "r \<in> set rank_range \<and> 2 \<le> t r \<and> (\<forall>q \<in> set rank_range. 2 \<le> t q \<longrightarrow> q \<le> r)"
proof -
  from assms repeated_rank_loop_Some[of t rank_range r]
  obtain pre post where s: "rank_range = pre @ r # post" "1 < t r" "\<forall>q \<in> set pre. t q \<le> 1"
    by (auto simp: highest_repeated_rank_def)
  from rank_range_descending have post: "\<forall>q \<in> set post. q < r"
    unfolding s(1) by (simp add: sorted_wrt_append)
  have "\<forall>q \<in> set (pre @ r # post). 2 \<le> t q \<longrightarrow> q \<le> r"
  proof (intro ballI impI)
    fix q assume "q \<in> set (pre @ r # post)" "2 \<le> t q"
    with s(3) post show "q \<le> r" by fastforce
  qed
  moreover have "r \<in> set (pre @ r # post)" by simp
  ultimately show ?thesis using s(2) unfolding s(1) by simp

qed

text \<open>
  C7. When the highest tally is two or more, \<open>highest_repeated_rank\<close> returns a rank whose
  tally is two or more and that no rank with such a tally exceeds; when the highest tally
  is below two, which is when every tally is below two, it returns \<open>None\<close>.
\<close>

theorem highest_repeated_rank_correct:
  "(2 \<le> max_tally rank_tallies \<longrightarrow>
      (\<exists>r. highest_repeated_rank rank_tallies = Some r \<and> r \<in> set rank_range \<and>
           2 \<le> rank_tallies r \<and>
           (\<forall>q \<in> set rank_range. 2 \<le> rank_tallies q \<longrightarrow> q \<le> r))) \<and>
   (max_tally rank_tallies < 2 \<longrightarrow> highest_repeated_rank rank_tallies = None) \<and>
   (max_tally rank_tallies < 2 \<longleftrightarrow> (\<forall>r \<in> set rank_range. rank_tallies r < 2))"
proof (intro conjI impI)
  assume "2 \<le> max_tally rank_tallies"
  from paired_has_repeated_rank[OF this] obtain r where
    r: "highest_repeated_rank rank_tallies = Some r" by auto
  from highest_repeated_rank_Some[OF r] r
  show "\<exists>r. highest_repeated_rank rank_tallies = Some r \<and> r \<in> set rank_range \<and>
           2 \<le> rank_tallies r \<and>
           (\<forall>q \<in> set rank_range. 2 \<le> rank_tallies q \<longrightarrow> q \<le> r)"
    by blast
next
  assume "max_tally rank_tallies < 2"
  then have "\<forall>r \<in> set rank_range. rank_tallies r \<le> 1"
    by (auto simp: max_tally_unpaired)
  then show "highest_repeated_rank rank_tallies = None"
    by (simp add: highest_repeated_rank_def repeated_rank_loop_None)
next
  show "max_tally rank_tallies < 2 \<longleftrightarrow> (\<forall>r \<in> set rank_range. rank_tallies r < 2)"
    by (rule max_tally_unpaired)
qed

lemma paired_example: "2 \<le> max_tally (count_list [12, 12, 11, 5, 0])"
  by code_simp

lemma unpaired_example: "max_tally (\<lambda>r. 0) < 2"
  by code_simp

text \<open>
  The tallies of the ranks A A K 7 2 have a repeated rank; the tallies that are all zero
  have none.
\<close>

theorem highest_repeated_rank_correct_witness:
  "2 \<le> max_tally (count_list [12, 12, 11, 5, 0]) \<and>
   (\<exists>r. highest_repeated_rank (count_list [12, 12, 11, 5, 0]) = Some r \<and> r \<in> set rank_range \<and>
        2 \<le> count_list [12, 12, 11, 5, 0] r) \<and>
   max_tally (\<lambda>r. 0) < 2 \<and>
   highest_repeated_rank (\<lambda>r. 0) = None"
proof -
  from highest_repeated_rank_correct[of "count_list [12, 12, 11, 5, 0]"] paired_example
  have a: "\<exists>r. highest_repeated_rank (count_list [12, 12, 11, 5, 0]) = Some r \<and>
             r \<in> set rank_range \<and> 2 \<le> count_list [12, 12, 11, 5, 0] r"
    by blast
  from highest_repeated_rank_correct[of "\<lambda>r. 0"] unpaired_example
  have b: "highest_repeated_rank (\<lambda>r. 0) = None"
    by blast
  from paired_example a unpaired_example b show ?thesis
    by (intro conjI)
qed

section \<open>The flush levels\<close>

lemma flush_loop_acc:
  "flush_loop subboards levels =
     levels @ concat (map (\<lambda>subboard.
        if length subboard \<ge> 3
        then map (\<lambda>novel_rank. [Couplet (Card novel_rank (suit (hd subboard)))
                                        (Card anything (suit (hd subboard)))])
               (filter (\<lambda>r. r \<notin> set (extract_ranks subboard False))
                  (rev [three..num_ranks - 1]))
        else []) subboards)"
  by (induction subboards arbitrary: levels) auto

lemma suit_hd_filter:
  "3 \<le> length (filter (\<lambda>c. suit c = s) board) \<Longrightarrow> suit (hd (filter (\<lambda>c. suit c = s) board)) = s"
proof -
  assume "3 \<le> length (filter (\<lambda>c. suit c = s) board)"
  then have "filter (\<lambda>c. suit c = s) board \<noteq> []" by auto
  then have "hd (filter (\<lambda>c. suit c = s) board) \<in> set (filter (\<lambda>c. suit c = s) board)"
    by (rule hd_in_set)
  then show ?thesis by simp
qed

lemma ranks_from_three: "filter (\<lambda>r. three \<le> r) rank_range = rev [three..num_ranks - 1]"
  by code_simp

lemma novel_ranks:
  "filter (\<lambda>r. three \<le> r \<and> r \<notin> S) rank_range = filter (\<lambda>r. r \<notin> S) (rev [three..num_ranks - 1])"
proof -
  have "filter (\<lambda>r. three \<le> r \<and> r \<notin> S) rank_range =
        filter (\<lambda>r. r \<notin> S) (filter (\<lambda>r. three \<le> r) rank_range)"
    by (simp add: conj_commute)
  then show ?thesis by (simp only: ranks_from_three)
qed

lemma flush_levels_refines: "flush_levels board = flush_levels_spec board"
proof -
  have "flush_levels board =
     concat (map (\<lambda>subboard.
        if length subboard \<ge> 3
        then map (\<lambda>novel_rank. [Couplet (Card novel_rank (suit (hd subboard)))
                                        (Card anything (suit (hd subboard)))])
               (filter (\<lambda>r. r \<notin> set (extract_ranks subboard False))
                  (rev [three..num_ranks - 1]))
        else []) (map (\<lambda>s. filter (\<lambda>card. suit card = s) board) suit_range))"
    by (simp add: flush_levels_def flush_loop_acc partition_by_suit_def)
  also have "\<dots> = flush_levels_spec board"
    unfolding flush_levels_spec_def map_map comp_def
    by (intro arg_cong[where f = concat] map_cong refl)
       (simp add: suit_hd_filter novel_ranks extract_ranks_def)
  finally show ?thesis .
qed

lemma distinct_concat_map:
  "distinct xs \<Longrightarrow> (\<And>x. x \<in> set xs \<Longrightarrow> distinct (f x)) \<Longrightarrow>
   (\<And>x y. x \<in> set xs \<Longrightarrow> y \<in> set xs \<Longrightarrow> x \<noteq> y \<Longrightarrow> set (f x) \<inter> set (f y) = {}) \<Longrightarrow>
   distinct (concat (map f xs))"
proof (induction xs)
  case Nil
  show ?case by simp
next
  case (Cons x xs)
  have "set (f x) \<inter> set (f y) = {}" if "y \<in> set xs" for y
    using Cons.prems(1) Cons.prems(3)[of x y] that by auto
  with Cons show ?case by fastforce
qed

lemma distinct_flush_levels_spec: "distinct (flush_levels_spec board)"
  unfolding flush_levels_spec_def
  by (rule distinct_concat_map)
     (auto simp: distinct_suit_range distinct_rank_range distinct_map inj_on_def)

text \<open>
  C8. \<open>flush_levels\<close> returns the levels that the specification describes: for each suit
  with three or more board cards, one level for each rank from three upwards that is
  missing among the board cards of that suit, highest rank first, each level the single
  pattern (that rank of the suit, anything of the suit), and nothing for a suit with fewer
  board cards. No level occurs twice.
\<close>

theorem flush_levels_one_level_per_missing_rank:
  "flush_levels board = flush_levels_spec board \<and> distinct (flush_levels board)"
  by (simp add: flush_levels_refines distinct_flush_levels_spec)

section \<open>Worked examples\<close>

text \<open>
  The board A\<heartsuit> 5\<heartsuit> 4\<heartsuit> 7\<clubsuit> 10\<diamondsuit>: an eight-high straight needs an eight and a six, a seven-high
  straight a six and a three, the wheel a three and a deuce; the hearts make a straight
  flush with the three and the deuce of hearts.
\<close>

lemma straight_levels_example:
  "straight_levels [Card 12 3, Card 3 3, Card 2 3, Card 5 0, Card 8 1] =
     Inr [[Couplet (Card 6 anything) (Card 4 anything)],
          [Couplet (Card 4 anything) (Card 1 anything)],
          [Couplet (Card 1 anything) (Card 0 anything)]]"
  by code_simp

lemma straight_flush_levels_example:
  "straight_flush_levels [Card 12 3, Card 3 3, Card 2 3, Card 5 0, Card 8 1] =
     Inr [[Couplet (Card 1 3) (Card 0 3)]]"
  by code_simp

lemma flush_levels_example:
  "flush_levels [Card 12 3, Card 3 3, Card 2 3, Card 5 0, Card 8 1] =
     map (\<lambda>r. [Couplet (Card r 3) (Card anything 3)]) [11, 10, 9, 8, 7, 6, 5, 4, 1]"
  by code_simp

end
